theory Spec2Isabelle
  imports Complex_Main "HOL-Library.AList" "HOL-Library.Multiset"
begin

section \<open>The cluster master request processor\<close>

text \<open>
  A model of \<^verbatim>\<open>ClusterMasterRequestProcessor\<close>
  (\<^verbatim>\<open>lib/internal/transport/express/ExpressRequestProcessor.ts\<close>): the work queue
  \<^verbatim>\<open>messages\<close> with its comparator, the two in-flight tables \<^verbatim>\<open>commands\<close> and
  \<^verbatim>\<open>events\<close>, worker assignment, the dispatch step, the handler of worker messages, the
  metrics report and the health indicator.

  The processor is a single-threaded event loop. Every method is a function from the
  state before to the state after, together with the list of effects it performs on its
  collaborators (workers, deferred results, message clients, the websocket, the metrics
  sink, the logger), in the order the code performs them. What the code reads from
  outside during a step (the cluster's workers, \<^verbatim>\<open>Math.random()\<close>, the clock, the
  websocket lifecycle, whether the listeners fail) is passed in as an environment.
\<close>

subsection \<open>Data\<close>

text \<open>Values the processor only passes on (payloads, results, exit codes, registrations).\<close>

type_synonym payload = nat

text \<open>Handles of objects the processor holds but does not own.\<close>

type_synonym deferred = nat
type_synonym client = nat

text \<open>\<^verbatim>\<open>AutomationContextAware.context\<close>: the fields \<^verbatim>\<open>hydrateContext\<close> reads.\<close>

record automation_context =
  invocationId :: string
  correlationId :: string
  workspaceId :: string

text \<open>\<^verbatim>\<open>HandlerContext & AutomationContextAware\<close>: the message client, and \<^verbatim>\<open>context\<close>
  (a keyword of Isabelle, hence \<open>hcontext\<close>).\<close>

record handler_context =
  messageClient :: client
  hcontext :: automation_context

text \<open>\<^verbatim>\<open>class Dispatched<T>\<close>: \<^verbatim>\<open>result\<close> is a \<^verbatim>\<open>Deferred<T>\<close>, \<^verbatim>\<open>context\<close> the handler context.\<close>

record dispatched =
  result :: deferred
  dcontext :: handler_context

text \<open>
  \<^verbatim>\<open>MasterMessage\<close>, as \<^verbatim>\<open>invokeCommand\<close> and \<^verbatim>\<open>invokeEvent\<close> build it:
  \<^verbatim>\<open>{ type, registration, context, data }\<close>.
\<close>

record master_message =
  mtype :: string
  mregistration :: "payload option"
  mcontext :: automation_context
  mdata :: payload

text \<open>\<^verbatim>\<open>interface MessageType { message; dispatched; ts }\<close>: one queued work item.\<close>

record message_type =
  message :: master_message
  qdispatched :: dispatched
  ts :: int

text \<open>
  An entry of the tables \<^verbatim>\<open>commands\<close> and \<^verbatim>\<open>events\<close>:
  \<^verbatim>\<open>{ dispatched, worker }\<close>, \<^verbatim>\<open>worker\<close> being the worker's id.
\<close>

record entry =
  edispatched :: dispatched
  eworker :: nat

text \<open>
  A JavaScript \<^verbatim>\<open>Map\<close> keeps its keys in insertion order, and \<^verbatim>\<open>set\<close> on a key
  that is present keeps the key's place: an association list with \<^const>\<open>AList.update\<close>
  and \<^const>\<open>AList.delete\<close>. A \<^verbatim>\<open>Map\<close> holds a key once; the lists of every reachable
  state have distinct keys (\<open>reachable_tables\<close> below).
\<close>

type_synonym table = "(string \<times> entry) list"

text \<open>
  The data of a worker message. The source types \<^verbatim>\<open>msg.data\<close> as \<^verbatim>\<open>any\<close>; it is
  passed on whole to a deferred result, the websocket or \<^verbatim>\<open>process.exit\<close>, and the
  \<^verbatim>\<open>atomist:message\<close> branch reads its \<^verbatim>\<open>message\<close>, \<^verbatim>\<open>destinations\<close> (absent or an
  array) and \<^verbatim>\<open>options\<close>.
\<close>

record wdata =
  dmessage :: payload
  destinations :: "payload list option"
  doptions :: payload

text \<open>
  The \<^verbatim>\<open>type\<close> of a worker message, as the handler's tests tell its values apart. The
  handler casts what arrives on the IPC channel to \<^verbatim>\<open>WorkerMessage\<close> as it is, so
  \<^verbatim>\<open>type\<close> is a string, or a falsy value that is not a string (\<^verbatim>\<open>undefined\<close> when
  the field is missing, \<^verbatim>\<open>null\<close>, \<^verbatim>\<open>false\<close>, \<^verbatim>\<open>0\<close>), or a truthy value that is not
  a string (a number, \<^verbatim>\<open>true\<close>, an object or array of data), which has no method
  \<^verbatim>\<open>startsWith\<close>.
\<close>

datatype type_value = Text string | Falsy | Truthy

text \<open>
  \<^verbatim>\<open>WorkerMessage\<close>: \<^verbatim>\<open>{ type, event, context, data }\<close>. The declaration
  (\<^verbatim>\<open>./messages\<close>) is not among the sources. \<^verbatim>\<open>context\<close> is \<open>None\<close> when the field is
  missing or \<^verbatim>\<open>null\<close>: the handler reads \<^verbatim>\<open>namespace.get().invocationId\<close> and
  \<^verbatim>\<open>msg.context.invocationId\<close> without a guard, which fails then.
\<close>

record worker_message =
  wtype :: type_value
  wevent :: payload
  wcontext :: "automation_context option"
  wdata :: wdata

text \<open>A \<^verbatim>\<open>cluster.Worker\<close>: its id, and what its method \<^verbatim>\<open>isConnected()\<close> returns,
  whether the worker is connected to the master over its IPC channel.\<close>

record worker =
  wid :: nat
  isConnected :: bool

text \<open>
  The condition of \<^verbatim>\<open>if (worker.isConnected)\<close> in \<^verbatim>\<open>assignWorker\<close>. The source names
  the method and does not call it; a function is truthy, so the condition holds of every
  worker, whatever \<^verbatim>\<open>isConnected()\<close> would return.
\<close>

definition isConnected_property :: "worker \<Rightarrow> bool" where
  "isConnected_property w = True"

text \<open>
  \<^verbatim>\<open>Math.random()\<close> returns an IEEE 754 double from 0 up to but not including 1. Such a
  double is \<open>mantissa / 2 ^ exponent\<close> for natural numbers \<open>mantissa < 2 ^ 53\<close> and
  \<open>53 \<le> exponent \<le> 1074\<close> (the normal ones with \<open>2 ^ 52 \<le> mantissa\<close>, the subnormal ones
  with \<open>exponent = 1074\<close>), and every such quotient is one.
\<close>

record unit_double =
  mantissa :: nat
  exponent :: nat

datatype level = Debug | Info | Warn | Error

datatype listener_call = CommandSuccessful | CommandFailed | EventSuccessful | EventFailed

text \<open>What a step does to the processor's collaborators.\<close>

datatype effect =
    Online                                       \<comment> \<open>\<^verbatim>\<open>deferred.resolve()\<close> of the worker's start barrier\<close>
  | NamespaceSet automation_context              \<comment> \<open>\<^verbatim>\<open>namespace.set(context)\<close>\<close>
  | ClearNamespace                               \<comment> \<open>\<^verbatim>\<open>this.clearNamespace()\<close>\<close>
  | Log level
  | Send client payload "payload list" payload   \<comment> \<open>\<^verbatim>\<open>messageClient.send(message, destinations, options)\<close>\<close>
  | Respond client payload payload               \<comment> \<open>\<^verbatim>\<open>messageClient.respond(message, options)\<close>\<close>
  | WsSend wdata                                 \<comment> \<open>\<^verbatim>\<open>ws().send(msg.data)\<close>\<close>
  | Listeners listener_call payload automation_context wdata
  | Resolve deferred wdata                       \<comment> \<open>\<^verbatim>\<open>dispatched.result.resolve(msg.data)\<close>\<close>
  | Reject deferred wdata                        \<comment> \<open>\<^verbatim>\<open>dispatched.result.reject(msg.data)\<close>\<close>
  | WorkerSend nat master_message                \<comment> \<open>\<^verbatim>\<open>worker.send(message.message)\<close>, by worker id\<close>
  | Callback deferred                            \<comment> \<open>\<^verbatim>\<open>callback(dispatched.result.promise)\<close>\<close>
  | Gauge string nat                             \<comment> \<open>\<^verbatim>\<open>statsd.gauge(name, value, ...)\<close>\<close>
  | Broadcast "payload option"                   \<comment> \<open>\<^verbatim>\<open>broadcast({ type: "atomist:registration", ... })\<close>\<close>
  | Exit wdata                                   \<comment> \<open>\<^verbatim>\<open>process.exit(msg.data)\<close>\<close>

datatype error = TypeError

text \<open>The fields of the processor.\<close>

record state =
  registration :: "payload option"
  commands :: table
  events :: table
  messages :: "message_type list"
  shutdownInitiated :: bool
  allocated :: nat   \<comment> \<open>the number of \<^verbatim>\<open>new Deferred()\<close> so far: the next handle\<close>

text \<open>The constructor's arguments and the statsd configuration.\<close>

record config =
  numWorkers :: nat
  maxConcurrentPerWorker :: int
  statsd_enabled :: bool     \<comment> \<open>\<^verbatim>\<open>configuration.statsd.enabled\<close>\<close>
  statsd_instance :: bool    \<comment> \<open>\<^verbatim>\<open>!!configuration.statsd.__instance\<close>\<close>

text \<open>What a step reads from outside the processor.\<close>

record env =
  workers :: "worker list"   \<comment> \<open>\<^verbatim>\<open>cluster.workers\<close>, in the order \<^verbatim>\<open>for (const id in ...)\<close> visits it\<close>
  random :: unit_double      \<comment> \<open>\<^verbatim>\<open>Math.random()\<close>\<close>
  tie :: nat                 \<comment> \<open>which of several equally ranked items the queue hands out\<close>
  now :: int                 \<comment> \<open>\<^verbatim>\<open>new Date().getTime()\<close>\<close>
  connected :: bool          \<comment> \<open>\<^verbatim>\<open>webSocketLifecycle.connected()\<close>\<close>
  listeners_fail :: bool     \<comment> \<open>whether the chain of listener calls rejects\<close>

definition initial :: state where
  "initial = \<lparr>registration = None, commands = [], events = [], messages = [],
     shutdownInitiated = False, allocated = 0\<rparr>"

subsection \<open>The work queue\<close>

text \<open>
  The comparator given to \<^verbatim>\<open>new TinyQueue([], (a, b) => ...)\<close>.
\<close>

definition compare :: "message_type \<Rightarrow> message_type \<Rightarrow> int" where
  "compare a b =
     (if mtype (message a) = ''atomist:command'' \<and> mtype (message b) \<noteq> ''atomist:command'' then - 1
      else if mtype (message a) \<noteq> ''atomist:command'' \<and> mtype (message b) = ''atomist:command'' then 1
      else ts a - ts b)"

text \<open>
  \<^verbatim>\<open>TinyQueue\<close> is the npm package \<^verbatim>\<open>tinyqueue\<close>, a priority queue over a comparator;
  it is not part of the repository. The model keeps the pending items in the order they
  were pushed and takes from the package its contract only: \<^verbatim>\<open>length\<close> is the number of
  items, \<^verbatim>\<open>push\<close> adds one, and \<^verbatim>\<open>pop\<close> removes and returns an item that the
  comparator puts before or level with every other item (\<^verbatim>\<open>undefined\<close> when there is
  none). Which of several level items comes out is the package's business: \<open>tops\<close>
  lists the positions of all of them and the environment's \<open>tie\<close> chooses one.
\<close>

definition push :: "'a list \<Rightarrow> 'a \<Rightarrow> 'a list" where
  "push q x = q @ [x]"

definition tops :: "('a \<Rightarrow> 'a \<Rightarrow> int) \<Rightarrow> 'a list \<Rightarrow> nat list" where
  "tops cmp q = filter (\<lambda>i. list_all (\<lambda>y. cmp (q ! i) y \<le> 0) q) [0..<length q]"

definition pop :: "('a \<Rightarrow> 'a \<Rightarrow> int) \<Rightarrow> nat \<Rightarrow> 'a list \<Rightarrow> ('a \<times> 'a list) option" where
  "pop cmp t q =
     (case tops cmp q of
        [] \<Rightarrow> None
      | c # cs \<Rightarrow>
          (let i = (c # cs) ! (t mod length (c # cs))
           in Some (q ! i, take i q @ drop (Suc i) q)))"

text \<open>Popping until the queue is empty, one tie-break per pop: the order of dequeueing.\<close>

fun drain :: "('a \<Rightarrow> 'a \<Rightarrow> int) \<Rightarrow> nat list \<Rightarrow> 'a list \<Rightarrow> 'a list" where
  "drain cmp [] q = []"
| "drain cmp (t # rest) q =
     (case pop cmp t q of None \<Rightarrow> [] | Some (x, q') \<Rightarrow> x # drain cmp rest q')"

subsection \<open>Metrics and health\<close>

text \<open>\<^verbatim>\<open>reportQueueLength\<close>.\<close>

definition reportQueueLength :: "config \<Rightarrow> state \<Rightarrow> state \<times> effect list" where
  "reportQueueLength cfg s =
     (if statsd_enabled cfg then
        (if statsd_instance cfg then
           (s, [Gauge ''work_queue.pending'' (length (messages s)),
                Gauge ''work_queue.events'' (length (events s)),
                Gauge ''work_queue.commands'' (length (commands s))])
         else (s, []))
      else (s, []))"

datatype health_status = Up | Down

record health =
  status :: health_status
  detail_commands :: "string list"
  detail_events :: "string list"

text \<open>The function given to \<^verbatim>\<open>registerHealthIndicator\<close> in the constructor.\<close>

definition healthIndicator :: "env \<Rightarrow> state \<Rightarrow> health" where
  "healthIndicator e s =
     (let cmds = map fst (commands s);
          evts = map fst (events s)
      in if connected e \<and> registration s \<noteq> None
         then \<lparr>status = Up, detail_commands = cmds, detail_events = evts\<rparr>
         else \<lparr>status = Down, detail_commands = cmds, detail_events = evts\<rparr>)"

subsection \<open>Worker assignment\<close>

text \<open>
  \<^verbatim>\<open>workers.find(w => w.worker.id === e.worker)\<close> followed by
  \<^verbatim>\<open>worker.messages = worker.messages + 1\<close>: the first entry with that id is credited;
  \<open>None\<close> when \<^verbatim>\<open>find\<close> returns \<^verbatim>\<open>undefined\<close>.
\<close>

fun credit :: "nat \<Rightarrow> (worker \<times> nat) list \<Rightarrow> (worker \<times> nat) list option" where
  "credit i [] = None"
| "credit i ((w, n) # ws) =
     (if wid w = i then Some ((w, n + 1) # ws)
      else map_option ((#) (w, n)) (credit i ws))"

text \<open>
  One \<^verbatim>\<open>forEach\<close> over a table: every entry credits its worker, or its key joins the dead
  keys when its worker is not in the list.
\<close>

fun tally :: "table \<Rightarrow> (worker \<times> nat) list \<Rightarrow> (worker \<times> nat) list \<times> string list" where
  "tally [] ws = (ws, [])"
| "tally ((k, e) # es) ws =
     (case credit (eworker e) ws of
        Some ws' \<Rightarrow> tally es ws'
      | None \<Rightarrow> (case tally es ws of (ws', dead) \<Rightarrow> (ws', k # dead)))"

text \<open>
  \<^verbatim>\<open>Math.floor(Math.random() * workers.length)\<close>, in the arithmetic of doubles. The
  length \<open>n\<close> of an array is a double as it is, and the exact product of
  \<open>mantissa / 2 ^ exponent\<close> and \<open>n\<close> is \<open>(mantissa * n) / 2 ^ exponent\<close>. The
  multiplication returns the double nearest to it, the one with the even mantissa of two
  that are equally near: the numerator is rounded to 53 significant bits (a numerator
  that has more is at least \<open>2 ^ 53\<close>, so the product is a normal double; one that has
  not is a double as it is). \<open>excess m\<close> is the number of bits of \<open>m\<close> beyond the leading
  53, \<open>round53 m\<close> the number \<open>m\<close> rounded to its leading 53 bits. \<^verbatim>\<open>Math.floor\<close> of
  the product is exact.
\<close>

function excess :: "nat \<Rightarrow> nat" where
  "excess m = (if m < 2 ^ 53 then 0 else Suc (excess (m div 2)))"
  by pat_completeness auto

termination
  by (relation "measure (\<lambda>m. m)") auto

definition round53 :: "nat \<Rightarrow> nat" where
  "round53 m =
     (let s = excess m;
          q = m div 2 ^ s;
          r = m mod 2 ^ s
      in if 2 * r < 2 ^ s then q * 2 ^ s
         else if 2 ^ s < 2 * r then (q + 1) * 2 ^ s
         else if even q then q * 2 ^ s
         else (q + 1) * 2 ^ s)"

definition floor_times :: "unit_double \<Rightarrow> nat \<Rightarrow> nat" where
  "floor_times r n = round53 (mantissa r * n) div 2 ^ exponent r"

text \<open>
  \<^verbatim>\<open>assignWorker\<close>. Every worker of \<^verbatim>\<open>cluster.workers\<close> passes
  \<^verbatim>\<open>if (worker.isConnected)\<close>. \<^verbatim>\<open>workers[i].worker\<close> with \<^verbatim>\<open>i\<close> outside the array
  would be a \<^verbatim>\<open>TypeError\<close>.
\<close>

definition assignWorker :: "config \<Rightarrow> env \<Rightarrow> state \<Rightarrow> error + (state \<times> worker option)" where
  "assignWorker cfg e s =
     (let ws0 = map (\<lambda>w. (w, 0)) (filter isConnected_property (workers e));
          (ws1, deadEvents) = tally (events s) ws0;
          s1 = s\<lparr>events := fold AList.delete deadEvents (events s)\<rparr>;
          (ws2, deadCommands) = tally (commands s1) ws1;
          s2 = s1\<lparr>commands := fold AList.delete deadCommands (commands s1)\<rparr>;
          ws3 = filter (\<lambda>(w, n). int n < maxConcurrentPerWorker cfg) ws2
      in if length ws3 = 0 then Inr (s2, None)
         else (let i = floor_times (random e) (length ws3)
               in if i < length ws3 then Inr (s2, Some (fst (ws3 ! i)))
                  else Inl TypeError))"

subsection \<open>The dispatch step\<close>

text \<open>
  The \<^verbatim>\<open>if / else if\<close> of \<^verbatim>\<open>startMessage\<close> that tracks the popped item: an entry
  with the item's \<^verbatim>\<open>dispatched\<close> and the worker's id is set under the item's invocation
  identity, in \<^verbatim>\<open>commands\<close> or in \<^verbatim>\<open>events\<close> by the message's type.
\<close>

definition track :: "worker \<Rightarrow> message_type \<Rightarrow> state \<Rightarrow> state" where
  "track w m s =
     (let k = invocationId (mcontext (message m));
          en = \<lparr>edispatched = qdispatched m, eworker = wid w\<rparr>
      in if mtype (message m) = ''atomist:command''
         then s\<lparr>commands := AList.update k en (commands s)\<rparr>
         else if mtype (message m) = ''atomist:event''
         then s\<lparr>events := AList.update k en (events s)\<rparr>
         else s)"

text \<open>\<^verbatim>\<open>startMessage\<close>. A \<^verbatim>\<open>pop\<close> that returned \<^verbatim>\<open>undefined\<close> would fail at
  \<^verbatim>\<open>message.message\<close>. The debug line is written in the two branches that track.\<close>

definition startMessage :: "config \<Rightarrow> env \<Rightarrow> state \<Rightarrow> error + (state \<times> effect list)" where
  "startMessage cfg e s =
     (if length (messages s) > 0 then
        (case assignWorker cfg e s of
           Inl err \<Rightarrow> Inl err
         | Inr (s1, None) \<Rightarrow> Inr (s1, snd (reportQueueLength cfg s1))
         | Inr (s1, Some w) \<Rightarrow>
             (case pop compare (tie e) (messages s1) of
                None \<Rightarrow> Inl TypeError
              | Some (m, q) \<Rightarrow>
                  (let s2 = track w m (s1\<lparr>messages := q\<rparr>);
                       logs = (if mtype (message m) = ''atomist:command''
                                 \<or> mtype (message m) = ''atomist:event''
                               then [Log Debug] else [])
                   in Inr (s2, NamespaceSet (mcontext (message m)) # logs
                                @ WorkerSend (wid w) (message m)
                                # snd (reportQueueLength cfg s2)))))
      else Inr (s, snd (reportQueueLength cfg s)))"

subsection \<open>Enqueueing\<close>

text \<open>\<^verbatim>\<open>invokeCommand\<close> and \<^verbatim>\<open>invokeEvent\<close>: build the message, push it with the
  clock's reading, hand the promise to the caller, run the dispatch step.\<close>

definition enqueue ::
  "string \<Rightarrow> config \<Rightarrow> env \<Rightarrow> handler_context \<Rightarrow> payload \<Rightarrow> state \<Rightarrow> error + (state \<times> effect list)" where
  "enqueue ty cfg e ctx body s =
     (let msg = \<lparr>mtype = ty, mregistration = registration s,
                 mcontext = hcontext ctx, mdata = body\<rparr>;
          d = \<lparr>result = allocated s, dcontext = ctx\<rparr>;
          s1 = s\<lparr>messages := push (messages s) \<lparr>message = msg, qdispatched = d, ts = now e\<rparr>,
                 allocated := allocated s + 1\<rparr>
      in case startMessage cfg e s1 of
           Inl err \<Rightarrow> Inl err
         | Inr (s2, effs) \<Rightarrow> Inr (s2, Callback (result d) # effs))"

definition invokeCommand ::
  "config \<Rightarrow> env \<Rightarrow> handler_context \<Rightarrow> payload \<Rightarrow> state \<Rightarrow> error + (state \<times> effect list)" where
  "invokeCommand = enqueue ''atomist:command''"

definition invokeEvent ::
  "config \<Rightarrow> env \<Rightarrow> handler_context \<Rightarrow> payload \<Rightarrow> state \<Rightarrow> error + (state \<times> effect list)" where
  "invokeEvent = enqueue ''atomist:event''"

subsection \<open>Messages from workers\<close>

text \<open>\<^verbatim>\<open>msg.type.startsWith("atomist:")\<close>.\<close>

definition startsWith :: "string \<Rightarrow> string \<Rightarrow> bool" where
  "startsWith s p = (take (length p) s = p)"

text \<open>
  The block \<^verbatim>\<open>if (table.has(invocationId)) { table.get(invocationId).dispatched.result.resolve
  (msg.data); table.delete(invocationId); }\<close> that every outcome branch runs, on its table
  and with \<^verbatim>\<open>resolve\<close> or \<^verbatim>\<open>reject\<close>.
\<close>

definition settle ::
  "(deferred \<Rightarrow> wdata \<Rightarrow> effect) \<Rightarrow> string \<Rightarrow> wdata \<Rightarrow> table \<Rightarrow> table \<times> effect list" where
  "settle how k d tbl =
     (case map_of tbl k of
        Some en \<Rightarrow> (AList.delete k tbl, [how (result (edispatched en)) d])
      | None \<Rightarrow> (tbl, []))"

text \<open>
  An outcome branch, of a message with context \<open>c\<close>: the listeners are called in a promise
  chain; its \<^verbatim>\<open>then\<close> and its
  \<^verbatim>\<open>catch\<close> run the same block, \<^verbatim>\<open>clearNamespace\<close> and \<^verbatim>\<open>startMessage\<close>, the
  \<^verbatim>\<open>catch\<close> after a warning.
\<close>

definition outcome ::
  "config \<Rightarrow> env \<Rightarrow> listener_call \<Rightarrow> automation_context \<Rightarrow> worker_message \<Rightarrow> state
     \<Rightarrow> (state \<times> effect list) \<Rightarrow> error + (state \<times> effect list)" where
  "outcome cfg e call c msg s settled =
     (case settled of (s1, effs1) \<Rightarrow>
        (case startMessage cfg e s1 of
           Inl err \<Rightarrow> Inl err
         | Inr (s2, effs2) \<Rightarrow>
             Inr (s2, NamespaceSet c # Log Debug
                      # Listeners call (wevent msg) c (wdata msg)
                      # (if listeners_fail e then [Log Warn] else [])
                      @ effs1 @ ClearNamespace # effs2)))"

text \<open>The kinds of message the handler has a branch for.\<close>

definition kinds :: "string list" where
  "kinds = [''atomist:online'', ''atomist:message'', ''atomist:status'',
     ''atomist:command_success'', ''atomist:command_failure'',
     ''atomist:event_success'', ''atomist:event_failure'', ''atomist:shutdown'']"

text \<open>
  The handler \<^verbatim>\<open>worker.on("message", ...)\<close> that \<^verbatim>\<open>attachEvents\<close> installs.
  \<^verbatim>\<open>msg.type.startsWith\<close> on a truthy \<^verbatim>\<open>type\<close> that is not a string is a
  \<^verbatim>\<open>TypeError\<close>, and so are \<^verbatim>\<open>namespace.get().invocationId\<close> and
  \<^verbatim>\<open>hydrateContext(msg)\<close> on a message without \<^verbatim>\<open>context\<close>, which the handler
  evaluates for every message with the prefix before it looks at the kind. In the
  \<^verbatim>\<open>atomist:message\<close> branch \<^verbatim>\<open>messageClient.send\<close> is called when
  \<^verbatim>\<open>msg.data.destinations\<close> is there and not empty, \<^verbatim>\<open>messageClient.respond\<close>
  otherwise.
\<close>

definition onMessage ::
  "config \<Rightarrow> env \<Rightarrow> worker_message \<Rightarrow> state \<Rightarrow> error + (state \<times> effect list)" where
  "onMessage cfg e msg s =
     (if wtype msg = Text ''atomist:online'' then Inr (s, [Online])
      else case wtype msg of
        Falsy \<Rightarrow> Inr (s, [])
      | Truthy \<Rightarrow> Inl TypeError
      | Text ty \<Rightarrow>
         (if ty = [] \<or> \<not> startsWith ty ''atomist:'' then Inr (s, [])
          else case wcontext msg of
            None \<Rightarrow> Inl TypeError
          | Some c \<Rightarrow>
            (let invId = invocationId c;
                 pre = [NamespaceSet c, Log Debug]
             in if ty = ''atomist:message'' then
                  (case (if map_of (commands s) invId \<noteq> None
                         then map_option (\<lambda>en. messageClient (dcontext (edispatched en)))
                                (map_of (commands s) invId)
                         else if map_of (events s) invId \<noteq> None
                         then map_option (\<lambda>en. messageClient (dcontext (edispatched en)))
                                (map_of (events s) invId)
                         else None) of
                     None \<Rightarrow> Inr (s, pre @ [Log Error, ClearNamespace])
                   | Some mc \<Rightarrow>
                       (case destinations (wdata msg) of
                          Some (d # ds) \<Rightarrow>
                            Inr (s, pre @ [Send mc (dmessage (wdata msg)) (d # ds)
                                             (doptions (wdata msg)), ClearNamespace])
                        | _ \<Rightarrow>
                            Inr (s, pre @ [Respond mc (dmessage (wdata msg))
                                             (doptions (wdata msg)), ClearNamespace])))
                else if ty = ''atomist:status'' then Inr (s, pre @ [WsSend (wdata msg)])
                else if ty = ''atomist:command_success'' then
                  outcome cfg e CommandSuccessful c msg s
                    (case settle Resolve invId (wdata msg) (commands s) of
                       (t, effs) \<Rightarrow> (s\<lparr>commands := t\<rparr>, effs))
                else if ty = ''atomist:command_failure'' then
                  outcome cfg e CommandFailed c msg s
                    (case settle Reject invId (wdata msg) (commands s) of
                       (t, effs) \<Rightarrow> (s\<lparr>commands := t\<rparr>, effs))
                else if ty = ''atomist:event_success'' then
                  outcome cfg e EventSuccessful c msg s
                    (case settle Resolve invId (wdata msg) (events s) of
                       (t, effs) \<Rightarrow> (s\<lparr>events := t\<rparr>, effs))
                else if ty = ''atomist:event_failure'' then
                  outcome cfg e EventFailed c msg s
                    (case settle Reject invId (wdata msg) (events s) of
                       (t, effs) \<Rightarrow> (s\<lparr>events := t\<rparr>, effs))
                else if ty = ''atomist:shutdown'' then
                  Inr (s, pre @ [Log Info, Exit (wdata msg)])
                else Inr (s, pre))))"

subsection \<open>The other entry points\<close>

text \<open>\<^verbatim>\<open>onRegistration\<close>, \<^verbatim>\<open>onDisconnect\<close>, the shutdown hook, and
  \<^verbatim>\<open>cluster.on("online", ...)\<close>.\<close>

definition onRegistration :: "payload \<Rightarrow> state \<Rightarrow> state \<times> effect list" where
  "onRegistration r s = (s\<lparr>registration := Some r\<rparr>, [Log Info, Broadcast (Some r)])"

definition onDisconnect :: "state \<Rightarrow> state" where
  "onDisconnect s = s\<lparr>registration := None\<rparr>"

definition shutdownHook :: "state \<Rightarrow> state" where
  "shutdownHook s = s\<lparr>shutdownInitiated := True\<rparr>"

definition onOnline :: "config \<Rightarrow> env \<Rightarrow> state \<Rightarrow> error + (state \<times> effect list)" where
  "onOnline cfg e s =
     (case startMessage cfg e s of
        Inl err \<Rightarrow> Inl err
      | Inr (s1, effs) \<Rightarrow> Inr (s1, Log Debug # effs))"

subsection \<open>Reachable states\<close>

text \<open>
  \<^verbatim>\<open>cluster.workers\<close> is an object keyed by worker id, so the workers a step sees have
  different ids; \<^verbatim>\<open>Math.random()\<close> returns a double from 0 up to but not including 1.
\<close>

definition env_ok :: "env \<Rightarrow> bool" where
  "env_ok e = (distinct (map wid (workers e)) \<and> mantissa (random e) < 2 ^ 53
     \<and> 53 \<le> exponent (random e) \<and> exponent (random e) \<le> 1074)"

text \<open>
  One step of the processor: a call of one of its entry points that returns normally, with
  the effects it performs. A run is a sequence of steps, with all their effects in order;
  a state is reachable when steps lead to it from the initial state.
\<close>

inductive step :: "config \<Rightarrow> state \<Rightarrow> effect list \<Rightarrow> state \<Rightarrow> bool" for cfg :: config where
  s_command: "env_ok e \<Longrightarrow> invokeCommand cfg e ctx body s = Inr (s', effs) \<Longrightarrow> step cfg s effs s'"
| s_event: "env_ok e \<Longrightarrow> invokeEvent cfg e ctx body s = Inr (s', effs) \<Longrightarrow> step cfg s effs s'"
| s_message: "env_ok e \<Longrightarrow> onMessage cfg e msg s = Inr (s', effs) \<Longrightarrow> step cfg s effs s'"
| s_online: "env_ok e \<Longrightarrow> onOnline cfg e s = Inr (s', effs) \<Longrightarrow> step cfg s effs s'"
| s_registration: "step cfg s (snd (onRegistration r s)) (fst (onRegistration r s))"
| s_disconnect: "step cfg s [] (onDisconnect s)"
| s_shutdown: "step cfg s [] (shutdownHook s)"
| s_report: "step cfg s (snd (reportQueueLength cfg s)) (fst (reportQueueLength cfg s))"

inductive run :: "config \<Rightarrow> state \<Rightarrow> effect list \<Rightarrow> state \<Rightarrow> bool" for cfg :: config where
  run_done: "run cfg s [] s"
| run_step: "step cfg s effs s' \<Longrightarrow> run cfg s' effs' s'' \<Longrightarrow> run cfg s (effs @ effs') s''"

inductive reachable :: "config \<Rightarrow> state \<Rightarrow> bool" for cfg :: config where
  r_initial: "reachable cfg initial"
| r_step: "reachable cfg s \<Longrightarrow> step cfg s effs s' \<Longrightarrow> reachable cfg s'"

text \<open>The number of entries of both tables that name worker \<open>i\<close>.\<close>

definition load :: "nat \<Rightarrow> table \<Rightarrow> nat" where
  "load i tbl = length (filter (\<lambda>(k, en). eworker en = i) tbl)"

definition assigned :: "nat \<Rightarrow> state \<Rightarrow> nat" where
  "assigned i s = load i (events s) + load i (commands s)"

subsection \<open>Work classes\<close>

text \<open>A queued item is command work when its message's type is \<^verbatim>\<open>atomist:command\<close>;
  the comparator treats every other item (event work) alike.\<close>

definition is_command :: "message_type \<Rightarrow> bool" where
  "is_command m = (mtype (message m) = ''atomist:command'')"

subsection \<open>Example values\<close>

text \<open>A context with invocation identity \<open>k\<close>, and a queued item of type \<open>ty\<close> with that
  identity, deferred result \<open>d\<close> and timestamp \<open>t\<close>.\<close>

definition ex_context :: "string \<Rightarrow> automation_context" where
  "ex_context k = \<lparr>invocationId = k, correlationId = ''c'', workspaceId = ''w''\<rparr>"

definition ex_item :: "string \<Rightarrow> string \<Rightarrow> deferred \<Rightarrow> int \<Rightarrow> message_type" where
  "ex_item ty k d t =
     \<lparr>message = \<lparr>mtype = ty, mregistration = None, mcontext = ex_context k, mdata = 0\<rparr>,
      qdispatched = \<lparr>result = d, dcontext = \<lparr>messageClient = d, hcontext = ex_context k\<rparr>\<rparr>,
      ts = t\<rparr>"

text \<open>A configuration with the given limit per worker, a connected worker, a worker that has
  disconnected, an environment with the given workers (\<^verbatim>\<open>Math.random()\<close> returns 0), a
  table entry and a worker message with a context.\<close>

definition ex_config :: "int \<Rightarrow> config" where
  "ex_config m = \<lparr>numWorkers = 1, maxConcurrentPerWorker = m,
     statsd_enabled = True, statsd_instance = True\<rparr>"

definition ex_worker :: "nat \<Rightarrow> worker" where
  "ex_worker i = \<lparr>wid = i, isConnected = True\<rparr>"

definition ex_gone :: "nat \<Rightarrow> worker" where
  "ex_gone i = \<lparr>wid = i, isConnected = False\<rparr>"

definition ex_env :: "worker list \<Rightarrow> env" where
  "ex_env ws = \<lparr>workers = ws, random = \<lparr>mantissa = 0, exponent = 53\<rparr>, tie = 0, now = 0,
     connected = True, listeners_fail = False\<rparr>"

definition ex_entry :: "string \<Rightarrow> deferred \<Rightarrow> nat \<Rightarrow> string \<times> entry" where
  "ex_entry k d w =
     (k, \<lparr>edispatched = \<lparr>result = d, dcontext = \<lparr>messageClient = d, hcontext = ex_context k\<rparr>\<rparr>,
          eworker = w\<rparr>)"

definition ex_message :: "type_value \<Rightarrow> string \<Rightarrow> worker_message" where
  "ex_message ty k =
     \<lparr>wtype = ty, wevent = 0, wcontext = Some (ex_context k),
      wdata = \<lparr>dmessage = 7, destinations = None, doptions = 0\<rparr>\<rparr>"

text \<open>The workers an assignment pass counts (every worker of \<^verbatim>\<open>cluster.workers\<close>, as
  \<^verbatim>\<open>if (worker.isConnected)\<close> holds of each), a table without the entries of workers that
  are not counted, the counted workers below the limit, by the number of entries of both
  tables that name them, and the one of these at the index \<^verbatim>\<open>Math.floor(Math.random() *
  workers.length)\<close>. The tables of a state are well formed when no key occurs twice.\<close>

definition counted :: "env \<Rightarrow> worker list" where
  "counted e = filter isConnected_property (workers e)"

definition purge :: "env \<Rightarrow> table \<Rightarrow> table" where
  "purge e tbl = filter (\<lambda>(k, en). eworker en \<in> wid ` set (counted e)) tbl"

definition eligible :: "config \<Rightarrow> env \<Rightarrow> state \<Rightarrow> worker list" where
  "eligible cfg e s =
     filter (\<lambda>w. int (assigned (wid w) s) < maxConcurrentPerWorker cfg) (counted e)"

definition chosen :: "config \<Rightarrow> env \<Rightarrow> state \<Rightarrow> worker" where
  "chosen cfg e s = eligible cfg e s ! floor_times (random e) (length (eligible cfg e s))"

definition tables_ok :: "state \<Rightarrow> bool" where
  "tables_ok s = (distinct (map fst (commands s)) \<and> distinct (map fst (events s)))"

text \<open>The effects that complete a deferred result.\<close>

fun is_settlement :: "effect \<Rightarrow> bool" where
  "is_settlement (Resolve d x) = True"
| "is_settlement (Reject d x) = True"
| "is_settlement _ = False"

definition settlements :: "effect list \<Rightarrow> effect list" where
  "settlements effs = filter is_settlement effs"

text \<open>A state with the given tables and queue and \<open>n\<close> deferred results so far, and the
  handler context of invocation \<open>k\<close> with message client \<open>d\<close>.\<close>

definition ex_state :: "table \<Rightarrow> table \<Rightarrow> message_type list \<Rightarrow> nat \<Rightarrow> state" where
  "ex_state c ev q n = \<lparr>registration = None, commands = c, events = ev, messages = q,
     shutdownInitiated = False, allocated = n\<rparr>"

definition ex_handler_context :: "string \<Rightarrow> client \<Rightarrow> handler_context" where
  "ex_handler_context k d = \<lparr>messageClient = d, hcontext = ex_context k\<rparr>"

text \<open>The deferred results the processor holds: those of the entries of a table, those of
  the queued items, and all of them. Each comes from one \<^verbatim>\<open>new Deferred()\<close>, so none occurs twice and all are
  among those made so far. The deferred results that a list of effects resolves or rejects.\<close>

definition table_handles :: "table \<Rightarrow> deferred list" where
  "table_handles tbl = map (\<lambda>(k, en). result (edispatched en)) tbl"

definition queue_handles :: "message_type list \<Rightarrow> deferred list" where
  "queue_handles q = map (\<lambda>m. result (qdispatched m)) q"

definition handles :: "state \<Rightarrow> deferred list" where
  "handles s =
     table_handles (commands s) @ table_handles (events s) @ queue_handles (messages s)"

definition handles_ok :: "state \<Rightarrow> bool" where
  "handles_ok s = (distinct (handles s) \<and> list_all (\<lambda>d. d < allocated s) (handles s))"

fun target :: "effect \<Rightarrow> deferred list" where
  "target (Resolve d x) = [d]"
| "target (Reject d x) = [d]"
| "target _ = []"

definition settled :: "effect list \<Rightarrow> deferred list" where
  "settled effs = concat (map target effs)"

text \<open>The algorithm of the package behind \<open>push\<close> and \<open>pop\<close>: a binary heap in the array
  \<^verbatim>\<open>data\<close>. \<^verbatim>\<open>_up(pos)\<close> moves the item at \<open>pos\<close> towards the root while it compares less
  than its parent; \<^verbatim>\<open>_down(pos)\<close> moves the item at \<open>pos\<close> away from the root while its
  smaller child compares less than it (\<open>n\<close> is \<^verbatim>\<open>this.length\<close>). \<^verbatim>\<open>push\<close> appends and
  calls \<^verbatim>\<open>_up\<close>; \<^verbatim>\<open>pop\<close> returns the root, having put the last item in its place and
  called \<^verbatim>\<open>_down(0)\<close>. Neither moves an item past one that compares equal, so the heap
  does not keep items of equal rank in the order they were pushed.\<close>

function tq_up :: "('a \<Rightarrow> 'a \<Rightarrow> int) \<Rightarrow> 'a \<Rightarrow> 'a list \<Rightarrow> nat \<Rightarrow> 'a list" where
  "tq_up cmp item data pos =
     (if pos > 0 then
        (let parent = (pos - 1) div 2;
             current = data ! parent
         in if cmp item current \<ge> 0 then data[pos := item]
            else tq_up cmp item (data[pos := current]) parent)
      else data[pos := item])"
  by pat_completeness auto

termination
  by (relation "measure (\<lambda>(cmp, item, data, pos). pos)") auto

function tq_down :: "('a \<Rightarrow> 'a \<Rightarrow> int) \<Rightarrow> 'a \<Rightarrow> nat \<Rightarrow> 'a list \<Rightarrow> nat \<Rightarrow> 'a list" where
  "tq_down cmp item n data pos =
     (if pos < n div 2 then
        (let left = 2 * pos + 1;
             right = left + 1;
             best = (if right < n \<and> cmp (data ! right) (data ! left) < 0 then right else left)
         in if cmp (data ! best) item \<ge> 0 then data[pos := item]
            else tq_down cmp item n (data[pos := data ! best]) best)
      else data[pos := item])"
  by pat_completeness auto

termination
  by (relation "measure (\<lambda>(cmp, item, n, data, pos). n - pos)") (auto simp: Let_def)

definition tq_push :: "('a \<Rightarrow> 'a \<Rightarrow> int) \<Rightarrow> 'a list \<Rightarrow> 'a \<Rightarrow> 'a list" where
  "tq_push cmp data item = tq_up cmp item (data @ [item]) (length data)"

definition tq_pop :: "('a \<Rightarrow> 'a \<Rightarrow> int) \<Rightarrow> 'a list \<Rightarrow> ('a \<times> 'a list) option" where
  "tq_pop cmp data =
     (if length data = 0 then None
      else (let top = data ! 0;
                n = length data - 1
            in if n > 0
               then Some (top, butlast (tq_down cmp (data ! n) n (data[0 := data ! n]) 0))
               else Some (top, butlast data)))"

section \<open>Properties of the work queue\<close>

declare excess.simps [simp del]




lemma compare_refl: "compare a a = 0"
  by (simp add: compare_def)

lemma compare_total: "compare a b \<le> 0 \<or> compare b a \<le> 0"
  by (auto simp: compare_def)

lemma compare_trans: "compare a b \<le> 0 \<Longrightarrow> compare b c \<le> 0 \<Longrightarrow> compare a c \<le> 0"
  by (auto simp: compare_def split: if_splits)

lemma least_exists:
  "q \<noteq> [] \<Longrightarrow> \<exists>x\<in>set q. \<forall>y\<in>set q. compare x y \<le> 0"
proof (induction q)
  case Nil
  then show ?case by simp
next
  case (Cons z q)
  show ?case
  proof (cases "q = []")
    case True
    then show ?thesis by (simp add: compare_refl)
  next
    case False
    with Cons.IH obtain x where x: "x \<in> set q" "\<forall>y\<in>set q. compare x y \<le> 0" by blast
    show ?thesis
    proof (cases "compare z x \<le> 0")
      case True
      with x have "\<forall>y\<in>set (z # q). compare z y \<le> 0"
        by (auto simp: compare_refl intro: compare_trans)
      then show ?thesis by auto
    next
      case False
      with compare_total [of z x] have "compare x z \<le> 0" by simp
      with x have "\<forall>y\<in>set (z # q). compare x y \<le> 0" by auto
      with x show ?thesis by auto
    qed
  qed
qed

lemma tops_iff: "i \<in> set (tops cmp q) \<longleftrightarrow> i < length q \<and> (\<forall>y\<in>set q. cmp (q ! i) y \<le> 0)"
  by (auto simp: tops_def list_all_iff)

lemma tops_nonempty: "q \<noteq> [] \<Longrightarrow> tops compare q \<noteq> []"
proof -
  assume "q \<noteq> []"
  from least_exists [OF this] obtain x where x: "x \<in> set q" "\<forall>y\<in>set q. compare x y \<le> 0" by blast
  then obtain i where "i < length q" "q ! i = x" by (auto simp: in_set_conv_nth)
  with x have "i \<in> set (tops compare q)" by (simp add: tops_iff)
  then show ?thesis by auto
qed

lemma pop_SomeD:
  assumes "pop cmp t q = Some (x, q')"
  shows "\<exists>i. i < length q \<and> x = q ! i \<and> q' = take i q @ drop (Suc i) q \<and> (\<forall>y\<in>set q. cmp x y \<le> 0)"
proof -
  from assms obtain c cs where cs: "tops cmp q = c # cs"
    by (auto simp: pop_def split: list.splits)
  define i where "i = (c # cs) ! (t mod length (c # cs))"
  have "i \<in> set (c # cs)" unfolding i_def by (rule nth_mem) simp
  then have "i \<in> set (tops cmp q)" by (simp add: cs)
  then have "i < length q" "\<forall>y\<in>set q. cmp (q ! i) y \<le> 0" by (simp_all add: tops_iff)
  moreover from assms have "x = q ! i" "q' = take i q @ drop (Suc i) q"
    by (simp_all add: pop_def cs i_def Let_def)
  ultimately show ?thesis by blast
qed

lemma pop_least: "pop cmp t q = Some (x, q') \<Longrightarrow> y \<in> set q \<Longrightarrow> cmp x y \<le> 0"
  by (drule pop_SomeD) blast

lemma pop_mset: "pop cmp t q = Some (x, q') \<Longrightarrow> mset q = add_mset x (mset q')"
proof -
  assume "pop cmp t q = Some (x, q')"
  from pop_SomeD [OF this] obtain i where i: "i < length q" "x = q ! i" "q' = take i q @ drop (Suc i) q"
    by blast
  from i(1) have "q = take i q @ q ! i # drop (Suc i) q" by (rule id_take_nth_drop)
  then have "mset q = mset (take i q @ q ! i # drop (Suc i) q)" by simp
  with i show ?thesis by simp
qed

lemma pop_length: "pop cmp t q = Some (x, q') \<Longrightarrow> length q = Suc (length q')"
  by (drule pop_mset) (metis size_mset size_add_mset)

lemma pop_set: "pop cmp t q = Some (x, q') \<Longrightarrow> set q = insert x (set q')"
  by (drule pop_mset) (metis set_mset_mset set_mset_add_mset_insert)

lemma pop_None: "pop compare t q = None \<longleftrightarrow> q = []"
proof
  assume "pop compare t q = None"
  then have "tops compare q = []" by (auto simp: pop_def Let_def split: list.splits)
  with tops_nonempty show "q = []" by blast
next
  assume "q = []" then show "pop compare t q = None" by (simp add: pop_def tops_def)
qed

lemma pop_ex: "q \<noteq> [] \<Longrightarrow> \<exists>x q'. pop compare t q = Some (x, q')"
  using pop_None [of t q] by (cases "pop compare t q") auto

lemma pop_other:
  assumes "pop cmp t q = Some (x, q')" "b \<in> set q" "x \<noteq> b"
  shows "b \<in> set q'"
  using pop_set [OF assms(1)] assms(2,3) by auto

lemma drain_subset: "set (drain cmp tr q) \<subseteq> set q"
proof (induction tr arbitrary: q)
  case Nil
  then show ?case by simp
next
  case (Cons t tr)
  show ?case
  proof (cases "pop cmp t q")
    case None
    then show ?thesis by simp
  next
    case (Some p)
    obtain x q' where p: "p = (x, q')" by (cases p)
    from Some p pop_set [of cmp t q x q'] have "set q = insert x (set q')" by simp
    with Cons.IH [of q'] Some p show ?thesis by auto
  qed
qed

lemma drain_sorted: "sorted_wrt (\<lambda>a b. cmp a b \<le> 0) (drain cmp tr q)"
proof (induction tr arbitrary: q)
  case Nil
  then show ?case by simp
next
  case (Cons t tr)
  show ?case
  proof (cases "pop cmp t q")
    case None
    then show ?thesis by simp
  next
    case (Some p)
    obtain x q' where p: "p = (x, q')" by (cases p)
    have "\<forall>y\<in>set (drain cmp tr q'). cmp x y \<le> 0"
    proof
      fix y assume "y \<in> set (drain cmp tr q')"
      with drain_subset [of cmp tr q'] have "y \<in> set q'" by blast
      with pop_set [of cmp t q x q'] Some p have "y \<in> set q" by simp
      with pop_least [of cmp t q x q'] Some p show "cmp x y \<le> 0" by simp
    qed
    with Cons.IH [of q'] Some p show ?thesis by simp
  qed
qed

lemma drain_mset: "length q \<le> length tr \<Longrightarrow> mset (drain compare tr q) = mset q"
proof (induction tr arbitrary: q)
  case Nil
  then show ?case by simp
next
  case (Cons t tr)
  show ?case
  proof (cases "pop compare t q")
    case None
    then have "q = []" by (simp add: pop_None)
    with None show ?thesis by simp
  next
    case (Some p)
    obtain x q' where p: "p = (x, q')" by (cases p)
    from Some p have m: "mset q = add_mset x (mset q')" by (simp add: pop_mset)
    from Some p have "length q = Suc (length q')" by (simp add: pop_length)
    with Cons.prems have "length q' \<le> length tr" by simp
    with Cons.IH [of q'] Some p m show ?thesis by simp
  qed
qed


lemma sorted_wrt_partition:
  assumes "sorted_wrt R xs" "\<And>a b. \<not> P a \<Longrightarrow> P b \<Longrightarrow> \<not> R a b"
  shows "xs = filter P xs @ filter (\<lambda>x. \<not> P x) xs"
  using assms(1)
proof (induction xs)
  case Nil
  then show ?case by simp
next
  case (Cons x xs)
  show ?case
  proof (cases "P x")
    case True
    with Cons show ?thesis by simp
  next
    case False
    with Cons.prems assms(2) have none: "\<forall>y\<in>set xs. \<not> P y" by auto
    then have "filter P xs = []" "filter (\<lambda>x. \<not> P x) xs = xs" by (simp_all add: filter_empty_conv)
    with False show ?thesis by simp
  qed
qed

lemma compare_command_event:
  "is_command a \<Longrightarrow> \<not> is_command b \<Longrightarrow> compare a b = - 1 \<and> compare b a = 1"
  by (simp add: compare_def is_command_def)

lemma compare_same_class: "is_command a = is_command b \<Longrightarrow> compare a b = ts a - ts b"
  by (auto simp: compare_def is_command_def)

lemma drain_commands_first:
  "drain compare tr q =
     filter is_command (drain compare tr q) @ filter (\<lambda>m. \<not> is_command m) (drain compare tr q)"
proof (rule sorted_wrt_partition)
  show "sorted_wrt (\<lambda>a b. compare a b \<le> 0) (drain compare tr q)" by (rule drain_sorted)
next
  fix a b assume "\<not> is_command a" "is_command b"
  then show "\<not> compare a b \<le> 0" by (simp add: compare_command_event)
qed

lemma drain_class_sorted:
  assumes "\<And>a b. P a \<Longrightarrow> P b \<Longrightarrow> is_command a = is_command b"
  shows "sorted (map ts (filter P (drain compare tr q)))"
proof -
  have "sorted_wrt (\<lambda>a b. compare a b \<le> 0) (filter P (drain compare tr q))"
    by (rule sorted_wrt_filter) (rule drain_sorted)
  then have "sorted_wrt (\<lambda>a b. ts a \<le> ts b) (filter P (drain compare tr q))"
  proof (rule sorted_wrt_mono_rel [rotated])
    fix a b
    assume "a \<in> set (filter P (drain compare tr q))" "b \<in> set (filter P (drain compare tr q))"
      "compare a b \<le> 0"
    with assms [of a b] show "ts a \<le> ts b" by (simp add: compare_same_class)
  qed
  then show ?thesis by (simp add: sorted_map)
qed

lemma drain_class_order:
  assumes cls: "\<And>a b. P a \<Longrightarrow> P b \<Longrightarrow> is_command a = is_command b"
    and len: "length q \<le> length tr"
    and inc: "sorted_wrt (<) (map ts (filter P q))"
  shows "filter P (drain compare tr q) = filter P q"
proof -
  let ?d = "filter P (drain compare tr q)" and ?q = "filter P q"
  have m: "mset ?d = mset ?q" by (simp add: drain_mset [OF len])
  have "sorted (map ts ?d)" by (rule drain_class_sorted [OF cls])
  moreover from inc have "sorted (map ts ?q)"
    by (rule sorted_wrt_mono_rel [rotated]) simp
  moreover from m have "mset (map ts ?d) = mset (map ts ?q)" by simp
  ultimately have eq: "map ts ?d = map ts ?q"
    by (metis properties_for_sort)
  from inc have "distinct (map ts ?q)" by (simp add: strict_sorted_iff)
  then have "inj_on ts (set ?q)" by (simp add: distinct_map)
  moreover from m have "set ?d = set ?q" by (rule mset_eq_setD)
  ultimately have "inj_on ts (set ?d \<union> set ?q)" by simp
  with eq show ?thesis by (simp add: inj_on_map_eq_map)
qed




text \<open>
  C1. Whenever a command and an event are both pending, whatever their places in the queue
  and their timestamps, the comparator puts the command first (\<open>compare a b < 0\<close>), a
  \<^verbatim>\<open>pop\<close> returns a command and leaves the event in the queue, and in the order of
  dequeueing all commands come before all events.
\<close>

theorem command_before_event:
  assumes "a \<in> set q" "is_command a" "b \<in> set q" "\<not> is_command b"
  shows "compare a b < 0 \<and> 0 < compare b a \<and>
         (\<exists>x q'. pop compare t q = Some (x, q') \<and> is_command x \<and> b \<in> set q') \<and>
         drain compare tr q =
           filter is_command (drain compare tr q) @ filter (\<lambda>m. \<not> is_command m) (drain compare tr q)"
proof -
  from assms(1) have "q \<noteq> []" by auto
  from pop_ex [OF this] obtain x q' where p: "pop compare t q = Some (x, q')" by blast
  from pop_least [OF p assms(1)] have "compare x a \<le> 0" .
  with assms(2) compare_command_event [of a x] have x: "is_command x" by auto
  with assms(4) have "x \<noteq> b" by auto
  from pop_other [OF p assms(3) this] have "b \<in> set q'" .
  with p x have "\<exists>x q'. pop compare t q = Some (x, q') \<and> is_command x \<and> b \<in> set q'" by blast
  moreover from assms(2,4) have "compare a b < 0 \<and> 0 < compare b a"
    by (simp add: compare_command_event)
  ultimately show ?thesis using drain_commands_first [of tr q] by blast
qed

lemma ex_simps:
  "is_command (ex_item ty k d t) = (ty = ''atomist:command'')"
  "ts (ex_item ty k d t) = t"
  "(ex_item ty k d t = ex_item ty' k' d' t') = (ty = ty' \<and> k = k' \<and> d = d' \<and> t = t')"
  by (auto simp: ex_item_def is_command_def ex_context_def)

lemma pop_eval:
  "pop cmp t [] = None"
  "pop cmp t [x] = (if cmp x x \<le> 0 then Some (x, []) else None)"
  by (simp_all add: pop_def tops_def)

text \<open>An event enqueued first (timestamp 10) and a command enqueued later (timestamp 20):
  the command is popped.\<close>

theorem command_before_event_witness:
  "ex_item ''atomist:command'' ''b'' 1 20 \<in> set [ex_item ''atomist:event'' ''a'' 0 10, ex_item ''atomist:command'' ''b'' 1 20]
   \<and> is_command (ex_item ''atomist:command'' ''b'' 1 20)
   \<and> ex_item ''atomist:event'' ''a'' 0 10 \<in> set [ex_item ''atomist:event'' ''a'' 0 10, ex_item ''atomist:command'' ''b'' 1 20]
   \<and> \<not> is_command (ex_item ''atomist:event'' ''a'' 0 10)
   \<and> compare (ex_item ''atomist:command'' ''b'' 1 20) (ex_item ''atomist:event'' ''a'' 0 10) < 0
   \<and> pop compare 0 [ex_item ''atomist:event'' ''a'' 0 10, ex_item ''atomist:command'' ''b'' 1 20]
       = Some (ex_item ''atomist:command'' ''b'' 1 20, [ex_item ''atomist:event'' ''a'' 0 10])"
proof -
  let ?a = "ex_item ''atomist:command'' ''b'' 1 20" and ?b = "ex_item ''atomist:event'' ''a'' 0 10"
  have h: "?a \<in> set [?b, ?a]" "is_command ?a" "?b \<in> set [?b, ?a]" "\<not> is_command ?b"
    by (simp_all add: ex_simps)
  from command_before_event [OF h, of 0 "[]"]
  obtain x q' where "compare ?a ?b < 0" "pop compare 0 [?b, ?a] = Some (x, q')" "is_command x"
    by blast
  moreover have "pop compare 0 [?b, ?a] = Some (?a, [?b])"
    by (simp add: pop_def tops_def compare_def ex_item_def upt_rec [of 0] upt_rec [of 1] upt_rec [of 2])
  ultimately show ?thesis using h by simp
qed


lemma compare_trans_less: "compare x a \<le> 0 \<Longrightarrow> compare a b < 0 \<Longrightarrow> compare x b < 0"
  by (auto simp: compare_def split: if_splits)

text \<open>
  C2, as the code has it. Of two pending items of one class, the one with the earlier
  timestamp is dequeued first: the comparator puts it first, and a \<^verbatim>\<open>pop\<close> does not
  return the later one, which stays in the queue. Within each class the order of
  dequeueing is by ascending timestamp; when the timestamps of a class strictly increase in
  the order of enqueueing (the clock's reading \<^verbatim>\<open>new Date().getTime()\<close> at each
  \<^verbatim>\<open>push\<close>), the class is dequeued in the order it was enqueued. Items of a class with
  the same timestamp compare equal, and nothing is said of their order.
\<close>

theorem same_class_by_timestamp:
  assumes "a \<in> set q" "b \<in> set q" "is_command a = is_command b" "ts a < ts b"
  shows "compare a b < 0 \<and>
         (\<exists>x q'. pop compare t q = Some (x, q') \<and> x \<noteq> b \<and> b \<in> set q') \<and>
         sorted (map ts (filter is_command (drain compare tr q))) \<and>
         sorted (map ts (filter (\<lambda>m. \<not> is_command m) (drain compare tr q))) \<and>
         (length q \<le> length tr \<and> sorted_wrt (<) (map ts (filter is_command q)) \<longrightarrow>
            filter is_command (drain compare tr q) = filter is_command q) \<and>
         (length q \<le> length tr \<and> sorted_wrt (<) (map ts (filter (\<lambda>m. \<not> is_command m) q)) \<longrightarrow>
            filter (\<lambda>m. \<not> is_command m) (drain compare tr q) = filter (\<lambda>m. \<not> is_command m) q)"
proof -
  from assms(3,4) have ab: "compare a b < 0" by (simp add: compare_same_class)
  from assms(1) have "q \<noteq> []" by auto
  from pop_ex [OF this] obtain x q' where p: "pop compare t q = Some (x, q')" by blast
  from pop_least [OF p assms(1)] have "compare x a \<le> 0" .
  from compare_trans_less [OF this ab] have "x \<noteq> b" by (auto simp: compare_refl)
  from pop_other [OF p assms(2) this] \<open>x \<noteq> b\<close> p
  have one: "\<exists>x q'. pop compare t q = Some (x, q') \<and> x \<noteq> b \<and> b \<in> set q'" by blast
  have c: "sorted (map ts (filter is_command (drain compare tr q)))"
    by (rule drain_class_sorted) simp
  have e: "sorted (map ts (filter (\<lambda>m. \<not> is_command m) (drain compare tr q)))"
    by (rule drain_class_sorted) simp
  have co: "length q \<le> length tr \<and> sorted_wrt (<) (map ts (filter is_command q)) \<longrightarrow>
              filter is_command (drain compare tr q) = filter is_command q"
    using drain_class_order [of is_command q tr] by simp
  have eo: "length q \<le> length tr \<and> sorted_wrt (<) (map ts (filter (\<lambda>m. \<not> is_command m) q)) \<longrightarrow>
              filter (\<lambda>m. \<not> is_command m) (drain compare tr q) = filter (\<lambda>m. \<not> is_command m) q"
    using drain_class_order [of "\<lambda>m. \<not> is_command m" q tr] by simp
  from ab one c e co eo show ?thesis by blast
qed

text \<open>Two events, enqueued at 10 and at 20.\<close>

theorem same_class_by_timestamp_witness:
  "ex_item ''atomist:event'' ''a'' 0 10 \<in> set [ex_item ''atomist:event'' ''a'' 0 10, ex_item ''atomist:event'' ''b'' 1 20]
   \<and> ex_item ''atomist:event'' ''b'' 1 20 \<in> set [ex_item ''atomist:event'' ''a'' 0 10, ex_item ''atomist:event'' ''b'' 1 20]
   \<and> is_command (ex_item ''atomist:event'' ''a'' 0 10) = is_command (ex_item ''atomist:event'' ''b'' 1 20)
   \<and> ts (ex_item ''atomist:event'' ''a'' 0 10) < ts (ex_item ''atomist:event'' ''b'' 1 20)
   \<and> length [ex_item ''atomist:event'' ''a'' 0 10, ex_item ''atomist:event'' ''b'' 1 20] \<le> length [0, 0 :: nat]
   \<and> sorted_wrt (<) (map ts (filter (\<lambda>m. \<not> is_command m)
        [ex_item ''atomist:event'' ''a'' 0 10, ex_item ''atomist:event'' ''b'' 1 20]))
   \<and> sorted_wrt (<) (map ts (filter is_command
        [ex_item ''atomist:event'' ''a'' 0 10, ex_item ''atomist:event'' ''b'' 1 20]))
   \<and> compare (ex_item ''atomist:event'' ''a'' 0 10) (ex_item ''atomist:event'' ''b'' 1 20) < 0
   \<and> pop compare 0 [ex_item ''atomist:event'' ''a'' 0 10, ex_item ''atomist:event'' ''b'' 1 20]
       = Some (ex_item ''atomist:event'' ''a'' 0 10, [ex_item ''atomist:event'' ''b'' 1 20])
   \<and> filter (\<lambda>m. \<not> is_command m)
        (drain compare [0, 0] [ex_item ''atomist:event'' ''a'' 0 10, ex_item ''atomist:event'' ''b'' 1 20])
       = [ex_item ''atomist:event'' ''a'' 0 10, ex_item ''atomist:event'' ''b'' 1 20]"
proof -
  let ?a = "ex_item ''atomist:event'' ''a'' 0 10" and ?b = "ex_item ''atomist:event'' ''b'' 1 20"
  have h: "?a \<in> set [?a, ?b]" "?b \<in> set [?a, ?b]" "is_command ?a = is_command ?b" "ts ?a < ts ?b"
    by (simp_all add: ex_simps)
  have g: "length [?a, ?b] \<le> length [0, 0 :: nat]"
    "sorted_wrt (<) (map ts (filter (\<lambda>m. \<not> is_command m) [?a, ?b]))"
    "sorted_wrt (<) (map ts (filter is_command [?a, ?b]))"
    by (simp_all add: ex_simps)
  have p: "pop compare 0 [?a, ?b] = Some (?a, [?b])"
    by (simp add: pop_def tops_def compare_def ex_item_def upt_rec [of 0] upt_rec [of 1] upt_rec [of 2])
  from same_class_by_timestamp [OF h, of 0 "[0, 0]"] g
  have "compare ?a ?b < 0"
    "filter (\<lambda>m. \<not> is_command m) (drain compare [0, 0] [?a, ?b]) = filter (\<lambda>m. \<not> is_command m) [?a, ?b]"
    by blast+
  with h g p show ?thesis by (simp add: ex_simps)
qed

section \<open>Messages from workers\<close>

lemma onMessage_unprefixed:
  assumes "wtype msg = Falsy \<or> (\<exists>ty. wtype msg = Text ty \<and> \<not> startsWith ty ''atomist:'')"
  shows "onMessage cfg e msg s = Inr (s, [])"
  using assms by (auto simp: onMessage_def startsWith_def)

lemma onMessage_unknown:
  assumes "wtype msg = Text ty" "startsWith ty ''atomist:''" "ty \<notin> set kinds"
    "wcontext msg = Some c"
  shows "onMessage cfg e msg s = Inr (s, [NamespaceSet c, Log Debug])"
proof -
  from assms(2,3) have "ty \<noteq> ''atomist:online''" "ty \<noteq> ''atomist:message''"
    "ty \<noteq> ''atomist:status''"
    "ty \<noteq> ''atomist:command_success''" "ty \<noteq> ''atomist:command_failure''"
    "ty \<noteq> ''atomist:event_success''" "ty \<noteq> ''atomist:event_failure''"
    "ty \<noteq> ''atomist:shutdown''" "ty \<noteq> []"
    by (auto simp: kinds_def startsWith_def)
  with assms(1,2,4) show ?thesis by (simp add: onMessage_def Let_def)
qed

text \<open>
  C7, as the code has it. A worker message whose type is missing (or another falsy value),
  or is a string that does not start with \<^verbatim>\<open>atomist:\<close>, is ignored whatever else it
  carries; a message whose type is a string of a kind the handler has no branch for is
  ignored when it carries a context. Ignored means: the handler returns normally with the
  queue, both tables and every other field as they were; it sets the namespace to the
  message's context and writes a debug line at most (neither, unless the type has the
  prefix), so it never calls \<^verbatim>\<open>process.exit\<close>.
\<close>

theorem unrecognized_message_ignored:
  assumes "wtype msg = Falsy \<or>
     (\<exists>ty. wtype msg = Text ty \<and>
        (\<not> startsWith ty ''atomist:'' \<or> ty \<notin> set kinds \<and> wcontext msg \<noteq> None))"
  shows "\<exists>effs. onMessage cfg e msg s = Inr (s, effs) \<and>
           set effs \<subseteq> insert (Log Debug) (NamespaceSet ` set_option (wcontext msg))"
proof (cases "wtype msg = Falsy \<or> (\<exists>ty. wtype msg = Text ty \<and> \<not> startsWith ty ''atomist:'')")
  case True
  then show ?thesis by (simp add: onMessage_unprefixed)
next
  case False
  with assms obtain ty c where "wtype msg = Text ty" "startsWith ty ''atomist:''"
    "ty \<notin> set kinds" "wcontext msg = Some c" by auto
  then show ?thesis by (simp add: onMessage_unknown)
qed

text \<open>A message of the unknown kind \<^verbatim>\<open>atomist:restart\<close> with a context, and a message
  without a type.\<close>

theorem unrecognized_message_ignored_witness:
  "(wtype (ex_message (Text ''atomist:restart'') ''a'') = Falsy \<or>
     wtype (ex_message (Text ''atomist:restart'') ''a'') = Text ''atomist:restart'' \<and>
       (\<not> startsWith ''atomist:restart'' ''atomist:'' \<or>
          ''atomist:restart'' \<notin> set kinds
          \<and> wcontext (ex_message (Text ''atomist:restart'') ''a'') \<noteq> None))
   \<and> onMessage (ex_config 4) (ex_env []) (ex_message (Text ''atomist:restart'') ''a'') initial
       = Inr (initial, [NamespaceSet (ex_context ''a''), Log Debug])
   \<and> onMessage (ex_config 4) (ex_env []) (ex_message Falsy ''a'') initial = Inr (initial, [])"
proof -
  have h: "wtype (ex_message (Text ''atomist:restart'') ''a'') = Falsy \<or>
     (\<exists>ty. wtype (ex_message (Text ''atomist:restart'') ''a'') = Text ty \<and>
        (\<not> startsWith ty ''atomist:'' \<or> ty \<notin> set kinds
           \<and> wcontext (ex_message (Text ''atomist:restart'') ''a'') \<noteq> None))"
    by (simp add: ex_message_def kinds_def)
  have h': "wtype (ex_message Falsy ''a'') = Falsy \<or>
     (\<exists>ty. wtype (ex_message Falsy ''a'') = Text ty \<and>
        (\<not> startsWith ty ''atomist:'' \<or> ty \<notin> set kinds
           \<and> wcontext (ex_message Falsy ''a'') \<noteq> None))"
    by (simp add: ex_message_def)
  from unrecognized_message_ignored [OF h, of "ex_config 4" "ex_env []" initial]
  obtain effs where "onMessage (ex_config 4) (ex_env []) (ex_message (Text ''atomist:restart'') ''a'') initial = Inr (initial, effs)"
    by blast
  moreover from unrecognized_message_ignored [OF h', of "ex_config 4" "ex_env []" initial]
  obtain effs' where "onMessage (ex_config 4) (ex_env []) (ex_message Falsy ''a'') initial = Inr (initial, effs')"
    by blast
  moreover have "onMessage (ex_config 4) (ex_env []) (ex_message (Text ''atomist:restart'') ''a'') initial
       = Inr (initial, [NamespaceSet (ex_context ''a''), Log Debug])"
    by (simp add: onMessage_def ex_message_def startsWith_def Let_def)
  moreover have "onMessage (ex_config 4) (ex_env []) (ex_message Falsy ''a'') initial
       = Inr (initial, [])"
    by (simp add: onMessage_def ex_message_def)
  ultimately show ?thesis by (simp add: ex_message_def kinds_def)
qed

text \<open>
  C7 as stated fails. A message of the unknown kind \<^verbatim>\<open>atomist:restart\<close> that carries no
  context, and a message whose type is a truthy value other than a string (it does not carry
  the prefix), are not ignored: the handler fails with a \<^verbatim>\<open>TypeError\<close>, the first at
  \<^verbatim>\<open>namespace.get().invocationId\<close>, the second at \<^verbatim>\<open>msg.type.startsWith\<close>.
\<close>

theorem unrecognized_message_counterexample:
  "''atomist:restart'' \<notin> set kinds
   \<and> onMessage (ex_config 4) (ex_env [])
        \<lparr>wtype = Text ''atomist:restart'', wevent = 0, wcontext = None,
         wdata = \<lparr>dmessage = 7, destinations = None, doptions = 0\<rparr>\<rparr> initial
       = Inl TypeError
   \<and> onMessage (ex_config 4) (ex_env []) (ex_message Truthy ''a'') initial = Inl TypeError"
  by (simp add: onMessage_def ex_message_def startsWith_def kinds_def)

text \<open>
  C9. A message of kind \<^verbatim>\<open>atomist:message\<close> (it carries a context, and with it its
  invocation identity) goes to the message client of the entry tracked under that
  identity, \<^verbatim>\<open>commands\<close> looked up before \<^verbatim>\<open>events\<close>: the handler calls the client's
  \<^verbatim>\<open>send\<close> with the message, the destinations and the options of the worker's data when
  the destinations are there and not empty, and its \<^verbatim>\<open>respond\<close> with the message and the
  options otherwise. With the identity in neither table an error is logged and nothing is
  sent. In every case the handler returns normally and the state is unchanged.
\<close>

theorem atomist_message_forwarded:
  assumes "wtype msg = Text ''atomist:message''" "wcontext msg = Some c"
  shows "onMessage cfg e msg s =
     Inr (s, [NamespaceSet c, Log Debug] @
       (case (case map_of (commands s) (invocationId c) of
                Some en \<Rightarrow> Some en
              | None \<Rightarrow> map_of (events s) (invocationId c)) of
          Some en \<Rightarrow>
            [case destinations (wdata msg) of
               Some (d # ds) \<Rightarrow>
                 Send (messageClient (dcontext (edispatched en))) (dmessage (wdata msg)) (d # ds)
                   (doptions (wdata msg))
             | _ \<Rightarrow>
                 Respond (messageClient (dcontext (edispatched en))) (dmessage (wdata msg))
                   (doptions (wdata msg)),
             ClearNamespace]
        | None \<Rightarrow> [Log Error, ClearNamespace]))"
  using assms
  by (auto simp: onMessage_def startsWith_def Let_def split: option.splits list.splits)

text \<open>The identity tracked in both tables and no destinations (the command's client 1 gets
  \<^verbatim>\<open>respond\<close>); in \<^verbatim>\<open>events\<close> only, with the destinations 3 and 4 (client 2 gets
  \<^verbatim>\<open>send\<close>); in \<^verbatim>\<open>events\<close> only, with an empty array of destinations (\<^verbatim>\<open>respond\<close>);
  and in neither table.\<close>

theorem atomist_message_forwarded_witness:
  "wtype (ex_message (Text ''atomist:message'') ''a'') = Text ''atomist:message''
   \<and> wcontext (ex_message (Text ''atomist:message'') ''a'') = Some (ex_context ''a'')
   \<and> onMessage (ex_config 4) (ex_env []) (ex_message (Text ''atomist:message'') ''a'')
        (initial\<lparr>commands := [ex_entry ''a'' 1 1], events := [ex_entry ''a'' 2 1]\<rparr>)
      = Inr (initial\<lparr>commands := [ex_entry ''a'' 1 1], events := [ex_entry ''a'' 2 1]\<rparr>,
             [NamespaceSet (ex_context ''a''), Log Debug, Respond 1 7 0, ClearNamespace])
   \<and> onMessage (ex_config 4) (ex_env [])
        (ex_message (Text ''atomist:message'') ''a''
           \<lparr>wdata := \<lparr>dmessage = 8, destinations = Some [3, 4], doptions = 5\<rparr>\<rparr>)
        (initial\<lparr>events := [ex_entry ''a'' 2 1]\<rparr>)
      = Inr (initial\<lparr>events := [ex_entry ''a'' 2 1]\<rparr>,
             [NamespaceSet (ex_context ''a''), Log Debug, Send 2 8 [3, 4] 5, ClearNamespace])
   \<and> onMessage (ex_config 4) (ex_env [])
        (ex_message (Text ''atomist:message'') ''a''
           \<lparr>wdata := \<lparr>dmessage = 8, destinations = Some [], doptions = 5\<rparr>\<rparr>)
        (initial\<lparr>events := [ex_entry ''a'' 2 1]\<rparr>)
      = Inr (initial\<lparr>events := [ex_entry ''a'' 2 1]\<rparr>,
             [NamespaceSet (ex_context ''a''), Log Debug, Respond 2 8 5, ClearNamespace])
   \<and> onMessage (ex_config 4) (ex_env []) (ex_message (Text ''atomist:message'') ''a'') initial
      = Inr (initial, [NamespaceSet (ex_context ''a''), Log Debug, Log Error, ClearNamespace])"
proof -
  let ?m = "ex_message (Text ''atomist:message'') ''a''"
  let ?m1 = "?m\<lparr>wdata := \<lparr>dmessage = 8, destinations = Some [3, 4], doptions = 5\<rparr>\<rparr>"
  let ?m2 = "?m\<lparr>wdata := \<lparr>dmessage = 8, destinations = Some [], doptions = 5\<rparr>\<rparr>"
  have h: "wtype ?m = Text ''atomist:message''" "wcontext ?m = Some (ex_context ''a'')"
    and h1: "wtype ?m1 = Text ''atomist:message''" "wcontext ?m1 = Some (ex_context ''a'')"
    and h2: "wtype ?m2 = Text ''atomist:message''" "wcontext ?m2 = Some (ex_context ''a'')"
    by (simp_all add: ex_message_def)
  note w = atomist_message_forwarded [OF h, of "ex_config 4" "ex_env []"]
    and w1 = atomist_message_forwarded [OF h1, of "ex_config 4" "ex_env []"]
    and w2 = atomist_message_forwarded [OF h2, of "ex_config 4" "ex_env []"]
  show ?thesis
    using w [of "initial\<lparr>commands := [ex_entry ''a'' 1 1], events := [ex_entry ''a'' 2 1]\<rparr>"]
      w1 [of "initial\<lparr>events := [ex_entry ''a'' 2 1]\<rparr>"]
      w2 [of "initial\<lparr>events := [ex_entry ''a'' 2 1]\<rparr>"] w [of initial]
    by (simp add: ex_message_def ex_entry_def ex_context_def initial_def)
qed

section \<open>Health\<close>

text \<open>
  C10. The health indicator reports \<open>Up\<close> exactly when the websocket lifecycle is
  connected and a registration is held, \<open>Down\<close> otherwise; either way its detail lists the
  keys of \<^verbatim>\<open>commands\<close> and of \<^verbatim>\<open>events\<close>, in the tables' order: the invocation
  identities present in each table.
\<close>

theorem health_indicator:
  "status (healthIndicator e s) = (if connected e \<and> registration s \<noteq> None then Up else Down)
   \<and> (status (healthIndicator e s) = Up) = (connected e \<and> registration s \<noteq> None)
   \<and> detail_commands (healthIndicator e s) = map fst (commands s)
   \<and> detail_events (healthIndicator e s) = map fst (events s)
   \<and> set (detail_commands (healthIndicator e s)) = dom (map_of (commands s))
   \<and> set (detail_events (healthIndicator e s)) = dom (map_of (events s))"
  by (simp add: healthIndicator_def Let_def dom_map_of_conv_image_fst)

section \<open>Worker assignment\<close>

lemma credit_None: "credit i ws = None \<longleftrightarrow> i \<notin> wid ` fst ` set ws"
  by (induction i ws rule: credit.induct) auto

lemma credit_Some:
  "distinct (map (wid \<circ> fst) ws) \<Longrightarrow> credit i ws = Some ws' \<Longrightarrow>
     ws' = map (\<lambda>(w, n). (w, if wid w = i then n + 1 else n)) ws"
proof (induction i ws arbitrary: ws' rule: credit.induct)
  case (1 i)
  then show ?case by simp
next
  case (2 i w n ws)
  show ?case
  proof (cases "wid w = i")
    case True
    with "2.prems" have "\<forall>p\<in>set ws. wid (fst p) \<noteq> i" by (force simp: comp_def)
    then have "map (\<lambda>(w, n). (w, if wid w = i then n + 1 else n)) ws = ws"
      by (induction ws) auto
    with True "2.prems" show ?thesis by auto
  next
    case False
    with "2.prems" obtain r where r: "credit i ws = Some r" "ws' = (w, n) # r" by auto
    with "2.IH" [OF False _ r(1)] "2.prems"(1) False show ?thesis by simp
  qed
qed

lemma tally_eq:
  "distinct (map (wid \<circ> fst) ws) \<Longrightarrow>
   tally es ws =
     (map (\<lambda>(w, n). (w, n + load (wid w) es)) ws,
      map fst (filter (\<lambda>(k, en). eworker en \<notin> wid ` fst ` set ws) es))"
proof (induction es arbitrary: ws)
  case Nil
  then show ?case by (simp add: load_def)
next
  case (Cons p es)
  obtain k en where p: "p = (k, en)" by (cases p)
  show ?case
  proof (cases "credit (eworker en) ws")
    case None
    then have out: "eworker en \<notin> wid ` fst ` set ws" by (simp add: credit_None)
    then have "\<And>w n. (w, n) \<in> set ws \<Longrightarrow> load (wid w) (p # es) = load (wid w) es"
      by (force simp: load_def p)
    then have "map (\<lambda>(w, n). (w, n + load (wid w) (p # es))) ws
             = map (\<lambda>(w, n). (w, n + load (wid w) es)) ws" by auto
    with None out Cons.IH [OF Cons.prems] show ?thesis by (simp add: p)
  next
    case (Some ws')
    from credit_Some [OF Cons.prems Some]
    have ws': "ws' = map (\<lambda>(w, n). (w, if wid w = eworker en then n + 1 else n)) ws" .
    then have ids: "map (wid \<circ> fst) ws' = map (wid \<circ> fst) ws" by (auto simp: comp_def split_def)
    then have "set (map (wid \<circ> fst) ws') = set (map (wid \<circ> fst) ws)" by simp
    then have img: "wid ` fst ` set ws' = wid ` fst ` set ws" by (simp add: image_comp)
    from Some have inn: "eworker en \<in> wid ` fst ` set ws"
      using credit_None [of "eworker en" ws] by simp
    have "distinct (map (wid \<circ> fst) ws')" unfolding ids by (rule Cons.prems)
    from Cons.IH [OF this] Some img inn show ?thesis
      by (simp add: p ws' load_def comp_def split_def)
  qed
qed

lemma fold_delete: "fold AList.delete ks al = filter (\<lambda>(k, v). k \<notin> set ks) al"
proof (induction ks arbitrary: al)
  case Nil
  then show ?case by simp
next
  case (Cons k ks)
  then show ?case by (auto simp: AList.delete_eq split_def intro: filter_cong)
qed

lemma purge_dead:
  assumes "distinct (map fst tbl)"
  shows "filter (\<lambda>(k, v). k \<notin> set (map fst (filter (\<lambda>(k, en). \<not> P en) tbl))) tbl
       = filter (\<lambda>(k, en). P en) tbl"
proof (rule filter_cong [OF refl])
  fix p assume p: "p \<in> set tbl"
  obtain k en where ke: "p = (k, en)" by (cases p)
  have "k \<in> fst ` {x \<in> set tbl. \<not> P (snd x)} \<longleftrightarrow> \<not> P en"
  proof
    assume "k \<in> fst ` {x \<in> set tbl. \<not> P (snd x)}"
    then obtain en' where e': "(k, en') \<in> set tbl" "\<not> P en'" by auto
    from assms e'(1) p [unfolded ke] have "en' = en" by (rule eq_key_imp_eq_value)
    with e' show "\<not> P en" by simp
  next
    assume "\<not> P en"
    with p ke show "k \<in> fst ` {x \<in> set tbl. \<not> P (snd x)}" by force
  qed
  then show "(case p of (k, v) \<Rightarrow> k \<notin> set (map fst (filter (\<lambda>(k, en). \<not> P en) tbl)))
           = (case p of (k, en) \<Rightarrow> P en)"
    by (simp add: ke split_def)
qed

lemma assignWorker_eq:
  assumes "env_ok e" "tables_ok s"
  shows "assignWorker cfg e s =
     (let s' = s\<lparr>events := purge e (events s), commands := purge e (commands s)\<rparr>;
          el = eligible cfg e s
      in if el = [] then Inr (s', None)
         else (let i = floor_times (random e) (length el)
               in if i < length el then Inr (s', Some (el ! i))
                  else Inl TypeError))"
proof -
  let ?ws0 = "map (\<lambda>w. (w, 0::nat)) (counted e)"
  from assms(1) have d0: "distinct (map (wid \<circ> fst) ?ws0)"
    by (simp add: env_ok_def counted_def isConnected_property_def comp_def)
  have img0: "wid ` fst ` set ?ws0 = wid ` set (counted e)" by force
  let ?ws1 = "map (\<lambda>(w, n). (w, n + load (wid w) (events s))) ?ws0"
  have t1: "tally (events s) ?ws0
      = (?ws1, map fst (filter (\<lambda>(k, en). eworker en \<notin> wid ` set (counted e)) (events s)))"
    using tally_eq [OF d0, of "events s"] by (simp only: img0)
  have d1: "distinct (map (wid \<circ> fst) ?ws1)" using d0 by (simp add: comp_def split_def)
  have img1: "wid ` fst ` set ?ws1 = wid ` set (counted e)" by force
  let ?ws2 = "map (\<lambda>(w, n). (w, n + load (wid w) (commands s))) ?ws1"
  have t2: "tally (commands s) ?ws1
      = (?ws2, map fst (filter (\<lambda>(k, en). eworker en \<notin> wid ` set (counted e)) (commands s)))"
    using tally_eq [OF d1, of "commands s"] by (simp only: img1)
  have ws2: "?ws2 = map (\<lambda>w. (w, assigned (wid w) s)) (counted e)"
    by (simp add: assigned_def comp_def)
  from assms(2) have pe: "fold AList.delete
      (map fst (filter (\<lambda>(k, en). eworker en \<notin> wid ` set (counted e)) (events s))) (events s)
      = purge e (events s)"
    unfolding fold_delete purge_def tables_ok_def
    using purge_dead [of "events s" "\<lambda>en. eworker en \<in> wid ` set (counted e)"] by simp
  from assms(2) have pc: "fold AList.delete
      (map fst (filter (\<lambda>(k, en). eworker en \<notin> wid ` set (counted e)) (commands s))) (commands s)
      = purge e (commands s)"
    unfolding fold_delete purge_def tables_ok_def
    using purge_dead [of "commands s" "\<lambda>en. eworker en \<in> wid ` set (counted e)"] by simp
  have f3: "filter (\<lambda>(w, n). int n < maxConcurrentPerWorker cfg) ?ws2
      = map (\<lambda>w. (w, assigned (wid w) s)) (eligible cfg e s)"
    unfolding ws2 by (simp add: eligible_def filter_map comp_def)
  have nth3: "\<And>i. i < length (eligible cfg e s) \<Longrightarrow>
      fst (map (\<lambda>w. (w, assigned (wid w) s)) (eligible cfg e s) ! i) = eligible cfg e s ! i"
    by simp
  show ?thesis
    unfolding assignWorker_def counted_def [symmetric]
    by (simp add: t1 t2 pe pc f3 Let_def del: map_map)
qed

text \<open>The index that \<^verbatim>\<open>Math.floor(Math.random() * workers.length)\<close> yields lies within
  the array: the rounding of the product never reaches the length.\<close>

lemma excess_small: "m < 2 ^ 53 \<Longrightarrow> excess m = 0"
  by (subst excess.simps) simp

lemma excess_lower: "2 ^ 53 \<le> m \<Longrightarrow> 2 ^ (52 + excess m) \<le> m"
proof (induction m rule: excess.induct)
  case (1 m)
  from 1(2) have e: "excess m = Suc (excess (m div 2))" by (subst excess.simps) simp
  show ?case
  proof (cases "m div 2 < 2 ^ 53")
    case True
    then have "excess (m div 2) = 0" by (rule excess_small)
    with e 1(2) show ?thesis by simp
  next
    case False
    with 1 have "2 ^ (52 + excess (m div 2)) \<le> m div 2" by simp
    then have "2 * 2 ^ (52 + excess (m div 2)) \<le> 2 * (m div 2)" by simp
    also have "\<dots> \<le> m" by simp
    finally have "2 * 2 ^ (52 + excess (m div 2)) \<le> m" .
    moreover have "(2::nat) ^ (52 + Suc (excess (m div 2))) = 2 * 2 ^ (52 + excess (m div 2))"
      by (simp only: add_Suc_right power_Suc)
    ultimately show ?thesis unfolding e by (simp only:)
  qed
qed

lemma round53_small: "m < 2 ^ 53 \<Longrightarrow> round53 m = m"
  by (simp add: round53_def excess_small)

lemma round53_le: "2 * round53 m \<le> 2 * m + 2 ^ excess m"
proof -
  define s where "s = excess m"
  define q where "q = m div 2 ^ s"
  define r where "r = m mod 2 ^ s"
  have m: "m = q * 2 ^ s + r" unfolding q_def r_def by (rule div_mult_mod_eq [symmetric])
  have "round53 m = q * 2 ^ s \<or> (2 ^ s \<le> 2 * r \<and> round53 m = (q + 1) * 2 ^ s)"
    unfolding round53_def Let_def s_def [symmetric] q_def [symmetric] r_def [symmetric]
    by auto
  then show ?thesis
  proof
    assume "round53 m = q * 2 ^ s"
    with m show ?thesis by simp
  next
    assume a: "2 ^ s \<le> 2 * r \<and> round53 m = (q + 1) * 2 ^ s"
    then have "2 * round53 m = 2 * (q * 2 ^ s) + 2 ^ s + 2 ^ s" by (simp add: algebra_simps)
    also from a have "\<dots> \<le> 2 * (q * 2 ^ s) + 2 * r + 2 ^ s" by simp
    also from m have "\<dots> = 2 * m + 2 ^ s" by simp
    finally show ?thesis by (simp add: s_def)
  qed
qed

lemma floor_times_less:
  assumes "mantissa r < 2 ^ 53" "53 \<le> exponent r" "0 < n"
  shows "floor_times r n < n"
proof -
  let ?m = "mantissa r * n"
  from assms(1) have "mantissa r + 1 \<le> 2 ^ 53" by simp
  then have "(mantissa r + 1) * n \<le> 2 ^ 53 * n" by (rule mult_le_mono1)
  then have a: "?m + n \<le> n * 2 ^ 53" by (simp add: algebra_simps)
  have b: "round53 ?m < n * 2 ^ 53"
  proof (cases "?m < 2 ^ 53")
    case True
    with a assms(3) show ?thesis by (simp add: round53_small)
  next
    case False
    then have "2 ^ (52 + excess ?m) \<le> ?m" by (simp add: excess_lower)
    also from a assms(3) have "?m < n * 2 ^ 53" by simp
    finally have "(2::nat) ^ 52 * 2 ^ excess ?m < 2 ^ 52 * (2 * n)"
      by (simp add: power_add)
    then have "2 ^ excess ?m < 2 * n" by simp
    with round53_le [of ?m] have "2 * round53 ?m < 2 * ?m + 2 * n" by linarith
    with a show ?thesis by linarith
  qed
  from assms(2) have "(2::nat) ^ 53 \<le> 2 ^ exponent r" by (rule power_increasing) simp
  then have "n * 2 ^ 53 \<le> n * 2 ^ exponent r" by (rule mult_le_mono2)
  with b have "round53 ?m < n * 2 ^ exponent r" by (rule less_le_trans)
  then show ?thesis unfolding floor_times_def by (rule less_mult_imp_div_less)
qed

text \<open>The rounding is that of doubles and not the floor of the exact product: with six
  workers and \<^verbatim>\<open>Math.random()\<close> returning \<open>7505999378950826 / 2 ^ 53\<close>, the exact product
  is below 5 and the double product is 5.\<close>

lemma floor_times_rounds:
  "floor_times \<lparr>mantissa = 7505999378950826, exponent = 53\<rparr> 6 = 5"
  "7505999378950826 * 6 < (5::nat) * 2 ^ 53"
proof -
  have "excess 45035996273704956 = 3"
    by (simp add: excess.simps [of 45035996273704956] excess.simps [of 22517998136852478]
        excess.simps [of 11258999068426239] excess.simps [of 5629499534213119])
  then show "floor_times \<lparr>mantissa = 7505999378950826, exponent = 53\<rparr> 6 = 5"
    by (simp add: floor_times_def round53_def)
  show "7505999378950826 * 6 < (5::nat) * 2 ^ 53" by simp
qed

lemma assignWorker_ok:
  assumes "env_ok e" "tables_ok s"
  shows "assignWorker cfg e s =
     Inr (s\<lparr>events := purge e (events s), commands := purge e (commands s)\<rparr>,
          if eligible cfg e s = [] then None else Some (chosen cfg e s))"
proof (cases "eligible cfg e s = []")
  case True
  then show ?thesis by (simp add: assignWorker_eq [OF assms] chosen_def)
next
  case False
  with assms(1)
  have "floor_times (random e) (length (eligible cfg e s)) < length (eligible cfg e s)"
    by (simp add: env_ok_def floor_times_less)
  with False show ?thesis by (simp add: assignWorker_eq [OF assms] Let_def chosen_def)
qed

lemma chosen_eligible:
  assumes "env_ok e" "eligible cfg e s \<noteq> []"
  shows "eligible cfg e s ! floor_times (random e) (length (eligible cfg e s))
           \<in> set (eligible cfg e s)"
proof -
  from assms
  have "floor_times (random e) (length (eligible cfg e s)) < length (eligible cfg e s)"
    by (simp add: env_ok_def floor_times_less)
  then show ?thesis by (rule nth_mem)
qed

lemma load_filter_le: "load i (filter P tbl) \<le> load i tbl"
proof -
  have "filter (\<lambda>(k, en). eworker en = i) (filter P tbl)
      = filter P (filter (\<lambda>(k, en). eworker en = i) tbl)"
    by (induction tbl) auto
  then show ?thesis unfolding load_def by (metis length_filter_le)
qed

lemma load_delete_le: "load i (AList.delete k tbl) \<le> load i tbl"
  unfolding AList.delete_eq by (rule load_filter_le)

lemma load_purge_le: "load i (purge e tbl) \<le> load i tbl"
  unfolding purge_def by (rule load_filter_le)

lemma load_purge_dead: "i \<notin> wid ` set (counted e) \<Longrightarrow> load i (purge e tbl) = 0"
  by (auto simp: load_def purge_def filter_empty_conv)

lemma load_update_le:
  "load i (AList.update k en tbl) \<le> load i tbl + (if eworker en = i then 1 else 0)"
  by (induction tbl) (auto simp: load_def)

lemma distinct_purge: "distinct (map fst tbl) \<Longrightarrow> distinct (map fst (purge e tbl))"
  unfolding purge_def by (rule distinct_map_filter)

lemma assigned_simps:
  "assigned i (s\<lparr>messages := q\<rparr>) = assigned i s"
  "assigned i (s\<lparr>events := ev\<rparr>) = load i ev + load i (commands s)"
  "assigned i (s\<lparr>commands := cm\<rparr>) = load i (events s) + load i cm"
  "assigned i (s\<lparr>allocated := n\<rparr>) = assigned i s"
  "assigned i (s\<lparr>registration := r\<rparr>) = assigned i s"
  "assigned i (s\<lparr>shutdownInitiated := b\<rparr>) = assigned i s"
  by (simp_all add: assigned_def)

lemma tables_ok_simps:
  "tables_ok (s\<lparr>messages := q\<rparr>) = tables_ok s"
  "tables_ok (s\<lparr>allocated := n\<rparr>) = tables_ok s"
  "tables_ok (s\<lparr>registration := r\<rparr>) = tables_ok s"
  "tables_ok (s\<lparr>shutdownInitiated := b\<rparr>) = tables_ok s"
  "tables_ok (s\<lparr>events := ev\<rparr>) = (distinct (map fst (commands s)) \<and> distinct (map fst ev))"
  "tables_ok (s\<lparr>commands := cm\<rparr>) = (distinct (map fst cm) \<and> distinct (map fst (events s)))"
  by (simp_all add: tables_ok_def)

text \<open>The result of a dispatch step, case by case.\<close>

lemma startMessage_empty:
  "messages s = [] \<Longrightarrow> startMessage cfg e s = Inr (s, snd (reportQueueLength cfg s))"
  by (simp add: startMessage_def)

lemma startMessage_saturated:
  assumes "env_ok e" "tables_ok s" "messages s \<noteq> []" "eligible cfg e s = []"
  shows "startMessage cfg e s =
     Inr (s\<lparr>events := purge e (events s), commands := purge e (commands s)\<rparr>,
          snd (reportQueueLength cfg (s\<lparr>events := purge e (events s), commands := purge e (commands s)\<rparr>)))"
  using assms(3,4) by (simp add: startMessage_def assignWorker_ok [OF assms(1,2)])

lemma startMessage_dispatch:
  assumes "env_ok e" "tables_ok s" "messages s \<noteq> []" "eligible cfg e s \<noteq> []"
  obtains m q where "pop compare (tie e) (messages s) = Some (m, q)"
    and "startMessage cfg e s =
       Inr (track (chosen cfg e s) m
              (s\<lparr>events := purge e (events s), commands := purge e (commands s), messages := q\<rparr>),
            NamespaceSet (mcontext (message m))
            # (if mtype (message m) = ''atomist:command'' \<or> mtype (message m) = ''atomist:event''
               then [Log Debug] else [])
            @ WorkerSend (wid (chosen cfg e s)) (message m)
            # snd (reportQueueLength cfg (track (chosen cfg e s) m
                (s\<lparr>events := purge e (events s), commands := purge e (commands s), messages := q\<rparr>))))"
proof -
  from pop_ex [OF assms(3)] obtain m q where p: "pop compare (tie e) (messages s) = Some (m, q)"
    by blast
  with assms(3,4) have "startMessage cfg e s =
       Inr (track (chosen cfg e s) m
              (s\<lparr>events := purge e (events s), commands := purge e (commands s), messages := q\<rparr>),
            NamespaceSet (mcontext (message m))
            # (if mtype (message m) = ''atomist:command'' \<or> mtype (message m) = ''atomist:event''
               then [Log Debug] else [])
            @ WorkerSend (wid (chosen cfg e s)) (message m)
            # snd (reportQueueLength cfg (track (chosen cfg e s) m
                (s\<lparr>events := purge e (events s), commands := purge e (commands s), messages := q\<rparr>))))"
    by (simp add: startMessage_def assignWorker_ok [OF assms(1,2)] Let_def chosen_def)
  with p that show ?thesis by blast
qed

lemma track_tables_ok: "tables_ok s \<Longrightarrow> tables_ok (track w m s)"
  by (simp add: track_def Let_def tables_ok_def distinct_update)

lemma track_assigned: "assigned i (track w m s) \<le> assigned i s + (if wid w = i then 1 else 0)"
  unfolding track_def Let_def assigned_def
  using load_update_le [of i "invocationId (mcontext (message m))"
            "\<lparr>edispatched = qdispatched m, eworker = wid w\<rparr>" "commands s"]
        load_update_le [of i "invocationId (mcontext (message m))"
            "\<lparr>edispatched = qdispatched m, eworker = wid w\<rparr>" "events s"]
  by (auto split: if_splits)

lemma eligible_below:
  "w \<in> set (eligible cfg e s) \<Longrightarrow>
     w \<in> set (workers e) \<and> int (assigned (wid w) s) < maxConcurrentPerWorker cfg"
  by (simp add: eligible_def counted_def)

lemma startMessage_inv:
  assumes "env_ok e" "tables_ok s" "startMessage cfg e s = Inr (s', effs)"
  shows "tables_ok s'"
    and "(\<And>j. int (assigned j s) \<le> maxConcurrentPerWorker cfg) \<Longrightarrow>
           int (assigned i s') \<le> maxConcurrentPerWorker cfg"
proof -
  let ?s1 = "s\<lparr>events := purge e (events s), commands := purge e (commands s)\<rparr>"
  have ok1: "tables_ok ?s1" using assms(2) by (simp add: tables_ok_def distinct_purge)
  have le1: "\<And>j. assigned j ?s1 \<le> assigned j s"
    by (simp add: assigned_def add_mono load_purge_le)
  have "tables_ok s' \<and> ((\<forall>j. int (assigned j s) \<le> maxConcurrentPerWorker cfg) \<longrightarrow>
           int (assigned i s') \<le> maxConcurrentPerWorker cfg)"
  proof (cases "messages s = []")
    case True
    with assms(3) have "s' = s" by (simp add: startMessage_empty)
    with assms(2) show ?thesis by simp
  next
    case False
    show ?thesis
    proof (cases "eligible cfg e s = []")
      case True
      with startMessage_saturated [OF assms(1,2) False, of cfg] assms(3) have "s' = ?s1" by simp
      with ok1 le1 [of i] show ?thesis by (metis of_nat_le_iff order_trans)
    next
      case el: False
      from chosen_eligible [OF assms(1) el] have "chosen cfg e s \<in> set (eligible cfg e s)"
        by (simp add: chosen_def)
      then have below: "int (assigned (wid (chosen cfg e s)) s) < maxConcurrentPerWorker cfg"
        by (simp add: eligible_below)
      from startMessage_dispatch [OF assms(1,2) False el] assms(3)
      obtain m q where s': "s' = track (chosen cfg e s) m (?s1\<lparr>messages := q\<rparr>)"
        by (metis Inr_inject prod.inject)
      from ok1 have ok: "tables_ok s'"
        unfolding s' by (simp add: track_tables_ok tables_ok_simps)
      have "assigned i s' \<le> assigned i ?s1 + (if wid (chosen cfg e s) = i then 1 else 0)"
        unfolding s' using track_assigned [of i "chosen cfg e s" m "?s1\<lparr>messages := q\<rparr>"]
        by (simp add: assigned_def)
      with le1 [of i]
      have "assigned i s' \<le> assigned i s + (if wid (chosen cfg e s) = i then 1 else 0)" by simp
      with below have "(\<forall>j. int (assigned j s) \<le> maxConcurrentPerWorker cfg) \<longrightarrow>
          int (assigned i s') \<le> maxConcurrentPerWorker cfg"
        by (cases "wid (chosen cfg e s) = i") (auto dest: spec [of _ i])
      with ok show ?thesis by simp
    qed
  qed
  then show "tables_ok s'"
    and "(\<And>j. int (assigned j s) \<le> maxConcurrentPerWorker cfg) \<Longrightarrow>
           int (assigned i s') \<le> maxConcurrentPerWorker cfg"
    by simp_all
qed

lemma settle_table:
  "fst (settle how k d tbl) = AList.delete k tbl"
  by (auto simp: settle_def split: option.splits intro: AList.delete_id [symmetric]
      simp: map_of_eq_None_iff)

lemma enqueue_inv:
  assumes "env_ok e" "tables_ok s" "enqueue ty cfg e ctx body s = Inr (s', effs)"
  shows "tables_ok s'"
    and "(\<And>j. int (assigned j s) \<le> maxConcurrentPerWorker cfg) \<Longrightarrow>
           int (assigned i s') \<le> maxConcurrentPerWorker cfg"
proof -
  let ?s1 = "s\<lparr>messages := push (messages s)
      \<lparr>message = \<lparr>mtype = ty, mregistration = registration s, mcontext = hcontext ctx, mdata = body\<rparr>,
       qdispatched = \<lparr>result = allocated s, dcontext = ctx\<rparr>, ts = now e\<rparr>,
      allocated := allocated s + 1\<rparr>"
  from assms(3) obtain effs' where st: "startMessage cfg e ?s1 = Inr (s', effs')"
    by (auto simp: enqueue_def Let_def split: sum.splits)
  from assms(2) have ok: "tables_ok ?s1" by (simp add: tables_ok_def)
  have same: "\<And>j. assigned j ?s1 = assigned j s" by (simp add: assigned_def)
  from startMessage_inv(1) [OF assms(1) ok st] show "tables_ok s'" .
  assume "\<And>j. int (assigned j s) \<le> maxConcurrentPerWorker cfg"
  with same have "\<And>j. int (assigned j ?s1) \<le> maxConcurrentPerWorker cfg" by simp
  from startMessage_inv(2) [OF assms(1) ok st this]
  show "int (assigned i s') \<le> maxConcurrentPerWorker cfg" .
qed

lemma outcome_inv:
  assumes "env_ok e" "tables_ok s1" "outcome cfg e call c msg s (s1, effs1) = Inr (s', effs)"
  shows "tables_ok s'"
    and "(\<And>j. int (assigned j s1) \<le> maxConcurrentPerWorker cfg) \<Longrightarrow>
           int (assigned i s') \<le> maxConcurrentPerWorker cfg"
proof -
  from assms(3) obtain effs' where st: "startMessage cfg e s1 = Inr (s', effs')"
    by (auto simp: outcome_def split: sum.splits)
  from startMessage_inv(1) [OF assms(1,2) st] show "tables_ok s'" .
  assume "\<And>j. int (assigned j s1) \<le> maxConcurrentPerWorker cfg"
  from startMessage_inv(2) [OF assms(1,2) st this]
  show "int (assigned i s') \<le> maxConcurrentPerWorker cfg" .
qed

lemma settled_inv:
  assumes "tables_ok s"
  shows "tables_ok (s\<lparr>commands := fst (settle how k d (commands s))\<rparr>)"
    and "tables_ok (s\<lparr>events := fst (settle how k d (events s))\<rparr>)"
    and "assigned j (s\<lparr>commands := fst (settle how k d (commands s))\<rparr>) \<le> assigned j s"
    and "assigned j (s\<lparr>events := fst (settle how k d (events s))\<rparr>) \<le> assigned j s"
  using assms
  by (simp_all add: settle_table tables_ok_def distinct_delete assigned_def load_delete_le)

lemma onMessage_outcomes:
  assumes "wtype msg = Text ty" "wcontext msg = Some c"
  shows "ty = ''atomist:command_success'' \<Longrightarrow> onMessage cfg e msg s =
       outcome cfg e CommandSuccessful c msg s
         (s\<lparr>commands := fst (settle Resolve (invocationId c) (wdata msg) (commands s))\<rparr>,
          snd (settle Resolve (invocationId c) (wdata msg) (commands s)))"
    and "ty = ''atomist:command_failure'' \<Longrightarrow> onMessage cfg e msg s =
       outcome cfg e CommandFailed c msg s
         (s\<lparr>commands := fst (settle Reject (invocationId c) (wdata msg) (commands s))\<rparr>,
          snd (settle Reject (invocationId c) (wdata msg) (commands s)))"
    and "ty = ''atomist:event_success'' \<Longrightarrow> onMessage cfg e msg s =
       outcome cfg e EventSuccessful c msg s
         (s\<lparr>events := fst (settle Resolve (invocationId c) (wdata msg) (events s))\<rparr>,
          snd (settle Resolve (invocationId c) (wdata msg) (events s)))"
    and "ty = ''atomist:event_failure'' \<Longrightarrow> onMessage cfg e msg s =
       outcome cfg e EventFailed c msg s
         (s\<lparr>events := fst (settle Reject (invocationId c) (wdata msg) (events s))\<rparr>,
          snd (settle Reject (invocationId c) (wdata msg) (events s)))"
  using assms by (simp_all add: onMessage_def Let_def startsWith_def split_def)

lemma onMessage_others:
  assumes "onMessage cfg e msg s = Inr (s', effs)"
    "\<And>ty. wtype msg = Text ty \<Longrightarrow> wcontext msg \<noteq> None \<Longrightarrow>
       ty \<notin> {''atomist:command_success'', ''atomist:command_failure'',
              ''atomist:event_success'', ''atomist:event_failure''}"
  shows "s' = s"
proof (cases "wtype msg")
  case Falsy
  with assms(1) show ?thesis by (simp add: onMessage_def)
next
  case Truthy
  with assms(1) show ?thesis by (simp add: onMessage_def)
next
  case (Text ty)
  show ?thesis
  proof (cases "wcontext msg")
    case None
    with assms(1) Text show ?thesis by (auto simp: onMessage_def split: if_splits)
  next
    case (Some c)
    with assms(2) [OF Text] have "ty \<noteq> ''atomist:command_success''"
      "ty \<noteq> ''atomist:command_failure''" "ty \<noteq> ''atomist:event_success''"
      "ty \<noteq> ''atomist:event_failure''" by auto
    with assms(1) Text Some show ?thesis
      by (auto simp: onMessage_def Let_def split: if_splits option.splits list.splits)
  qed
qed

lemma onMessage_cases:
  assumes "onMessage cfg e msg s = Inr (s', effs)"
  shows "s' = s \<or>
    (\<exists>call how k c effs1. outcome cfg e call c msg s
        (s\<lparr>commands := fst (settle how k (wdata msg) (commands s))\<rparr>, effs1)
          = Inr (s', effs)) \<or>
    (\<exists>call how k c effs1. outcome cfg e call c msg s
        (s\<lparr>events := fst (settle how k (wdata msg) (events s))\<rparr>, effs1)
          = Inr (s', effs))"
proof (cases "\<exists>ty c. wtype msg = Text ty \<and> wcontext msg = Some c \<and>
      ty \<in> {''atomist:command_success'', ''atomist:command_failure'',
              ''atomist:event_success'', ''atomist:event_failure''}")
  case False
  then have "s' = s" by (intro onMessage_others [OF assms]) auto
  then show ?thesis by simp
next
  case True
  then obtain ty c where t: "wtype msg = Text ty" "wcontext msg = Some c"
    and "ty \<in> {''atomist:command_success'', ''atomist:command_failure'',
              ''atomist:event_success'', ''atomist:event_failure''}" by blast
  then consider "ty = ''atomist:command_success''" | "ty = ''atomist:command_failure''"
    | "ty = ''atomist:event_success''" | "ty = ''atomist:event_failure''" by auto
  then show ?thesis
  proof cases
    case 1
    from onMessage_outcomes(1) [OF t 1, of cfg e s] assms show ?thesis by metis
  next
    case 2
    from onMessage_outcomes(2) [OF t 2, of cfg e s] assms show ?thesis by metis
  next
    case 3
    from onMessage_outcomes(3) [OF t 3, of cfg e s] assms show ?thesis by metis
  next
    case 4
    from onMessage_outcomes(4) [OF t 4, of cfg e s] assms show ?thesis by metis
  qed
qed

lemma onMessage_inv:
  assumes "env_ok e" "tables_ok s" "onMessage cfg e msg s = Inr (s', effs)"
  shows "tables_ok s'"
    and "(\<And>j. int (assigned j s) \<le> maxConcurrentPerWorker cfg) \<Longrightarrow>
           int (assigned i s') \<le> maxConcurrentPerWorker cfg"
proof -
  have "tables_ok s' \<and> ((\<forall>j. int (assigned j s) \<le> maxConcurrentPerWorker cfg) \<longrightarrow>
           int (assigned i s') \<le> maxConcurrentPerWorker cfg)"
    using onMessage_cases [OF assms(3)]
  proof (elim disjE exE)
    assume "s' = s"
    with assms(2) show ?thesis by simp
  next
    fix call how k c effs1
    let ?s1 = "s\<lparr>commands := fst (settle how k (wdata msg) (commands s))\<rparr>"
    assume o: "outcome cfg e call c msg s (?s1, effs1) = Inr (s', effs)"
    from settled_inv(1) [OF assms(2)] have ok: "tables_ok ?s1" .
    show ?thesis
    proof (intro conjI impI)
      show "tables_ok s'" by (rule outcome_inv(1) [OF assms(1) ok o])
      assume b: "\<forall>j. int (assigned j s) \<le> maxConcurrentPerWorker cfg"
      have "\<And>j. int (assigned j ?s1) \<le> maxConcurrentPerWorker cfg"
        using settled_inv(3) [OF assms(2), of _ how k "wdata msg"] b
        by (meson of_nat_le_iff order_trans)
      from outcome_inv(2) [OF assms(1) ok o this]
      show "int (assigned i s') \<le> maxConcurrentPerWorker cfg" .
    qed
  next
    fix call how k c effs1
    let ?s1 = "s\<lparr>events := fst (settle how k (wdata msg) (events s))\<rparr>"
    assume o: "outcome cfg e call c msg s (?s1, effs1) = Inr (s', effs)"
    from settled_inv(2) [OF assms(2)] have ok: "tables_ok ?s1" .
    show ?thesis
    proof (intro conjI impI)
      show "tables_ok s'" by (rule outcome_inv(1) [OF assms(1) ok o])
      assume b: "\<forall>j. int (assigned j s) \<le> maxConcurrentPerWorker cfg"
      have "\<And>j. int (assigned j ?s1) \<le> maxConcurrentPerWorker cfg"
        using settled_inv(4) [OF assms(2), of _ how k "wdata msg"] b
        by (meson of_nat_le_iff order_trans)
      from outcome_inv(2) [OF assms(1) ok o this]
      show "int (assigned i s') \<le> maxConcurrentPerWorker cfg" .
    qed
  qed
  then show "tables_ok s'"
    and "(\<And>j. int (assigned j s) \<le> maxConcurrentPerWorker cfg) \<Longrightarrow>
           int (assigned i s') \<le> maxConcurrentPerWorker cfg"
    by simp_all
qed

lemma step_inv:
  assumes "step cfg s effs s'" "tables_ok s"
  shows "tables_ok s'"
    and "(\<And>j. int (assigned j s) \<le> maxConcurrentPerWorker cfg) \<Longrightarrow>
           int (assigned i s') \<le> maxConcurrentPerWorker cfg"
proof -
  have "tables_ok s' \<and> ((\<forall>j. int (assigned j s) \<le> maxConcurrentPerWorker cfg) \<longrightarrow>
           int (assigned i s') \<le> maxConcurrentPerWorker cfg)"
    using assms(1)
  proof cases
    case (s_command e ctx body)
    with assms(2) show ?thesis
      using enqueue_inv [of e s "''atomist:command''" cfg ctx body s' effs]
      by (simp add: invokeCommand_def)
  next
    case (s_event e ctx body)
    with assms(2) show ?thesis
      using enqueue_inv [of e s "''atomist:event''" cfg ctx body s' effs]
      by (simp add: invokeEvent_def)
  next
    case (s_message e msg)
    with assms(2) show ?thesis using onMessage_inv [of e s cfg msg s' effs] by simp
  next
    case (s_online e)
    then obtain effs' where "startMessage cfg e s = Inr (s', effs')"
      by (auto simp: onOnline_def split: sum.splits)
    with s_online assms(2) show ?thesis using startMessage_inv [of e s cfg s' effs'] by simp
  next
    case (s_registration r)
    with assms(2) show ?thesis by (simp add: onRegistration_def tables_ok_def assigned_def)
  next
    case s_disconnect
    with assms(2) show ?thesis by (simp add: onDisconnect_def tables_ok_def assigned_def)
  next
    case s_shutdown
    with assms(2) show ?thesis by (simp add: shutdownHook_def tables_ok_def assigned_def)
  next
    case s_report
    with assms(2) show ?thesis by (simp add: reportQueueLength_def)
  qed
  then show "tables_ok s'"
    and "(\<And>j. int (assigned j s) \<le> maxConcurrentPerWorker cfg) \<Longrightarrow>
           int (assigned i s') \<le> maxConcurrentPerWorker cfg"
    by simp_all
qed

lemma reachable_tables: "reachable cfg s \<Longrightarrow> tables_ok s"
proof (induction rule: reachable.induct)
  case r_initial
  show ?case by (simp add: initial_def tables_ok_def)
next
  case (r_step s effs s')
  then show ?case by (simp add: step_inv(1))
qed

lemma reachable_inv:
  assumes "reachable cfg s" "0 \<le> maxConcurrentPerWorker cfg"
  shows "tables_ok s \<and> (\<forall>i. int (assigned i s) \<le> maxConcurrentPerWorker cfg)"
  using assms(1)
proof (induction rule: reachable.induct)
  case r_initial
  with assms(2) show ?case by (simp add: initial_def tables_ok_def assigned_def load_def)
next
  case (r_step s effs s')
  then show ?case using step_inv [of cfg s effs s'] by simp
qed

section \<open>The dispatch step and the limit per worker\<close>

lemma report_effects: "settlements (snd (reportQueueLength cfg s)) = []"
  by (simp add: reportQueueLength_def settlements_def)

lemma report_state: "fst (reportQueueLength cfg s) = s"
  by (simp add: reportQueueLength_def)

lemma startMessage_settles_nothing:
  "startMessage cfg e s = Inr (s', effs) \<Longrightarrow> settlements effs = []"
  using report_effects
  by (auto simp: startMessage_def settlements_def Let_def
      split: if_splits sum.splits option.splits prod.splits)

lemma startMessage_total:
  assumes "env_ok e" "tables_ok s"
  shows "\<exists>s' effs. startMessage cfg e s = Inr (s', effs)"
proof (cases "messages s = []")
  case True
  then show ?thesis by (simp add: startMessage_empty)
next
  case False
  show ?thesis
  proof (cases "eligible cfg e s = []")
    case True
    with startMessage_saturated [OF assms False] show ?thesis by blast
  next
    case el: False
    from startMessage_dispatch [OF assms False el] show ?thesis by metis
  qed
qed

lemma chosen_counted:
  assumes "env_ok e" "eligible cfg e s \<noteq> []"
  shows "chosen cfg e s \<in> set (counted e)"
  using chosen_eligible [OF assms] by (simp add: chosen_def eligible_def)

lemma startMessage_dead:
  assumes "env_ok e" "tables_ok s" "messages s \<noteq> []" "i \<notin> wid ` set (counted e)"
    "startMessage cfg e s = Inr (s', effs)"
  shows "assigned i s' = 0"
proof -
  let ?s1 = "s\<lparr>events := purge e (events s), commands := purge e (commands s)\<rparr>"
  from assms(4) have z: "assigned i ?s1 = 0" by (simp add: assigned_def load_purge_dead)
  show ?thesis
  proof (cases "eligible cfg e s = []")
    case True
    with startMessage_saturated [OF assms(1-3), of cfg] assms(5) z show ?thesis by simp
  next
    case el: False
    from chosen_counted [OF assms(1) el] assms(4) have ne: "wid (chosen cfg e s) \<noteq> i" by auto
    from startMessage_dispatch [OF assms(1-3) el] assms(5)
    obtain m q where s': "s' = track (chosen cfg e s) m (?s1\<lparr>messages := q\<rparr>)"
      by (metis Inr_inject prod.inject)
    from track_assigned [of i "chosen cfg e s" m "?s1\<lparr>messages := q\<rparr>"] ne z
    show ?thesis unfolding s' by (simp add: assigned_def)
  qed
qed

text \<open>
  In every reachable state no worker id is named by more than
  \<^verbatim>\<open>maxConcurrentPerWorker\<close> entries of the two tables together. In such a state an
  assignment pass returns only a worker of \<^verbatim>\<open>cluster.workers\<close> whose entries in both
  tables number less than the limit, and it returns none exactly when every worker of
  \<^verbatim>\<open>cluster.workers\<close> is at or above the limit (as when there is none).
\<close>

lemma assigned_within_limit:
  assumes "0 \<le> maxConcurrentPerWorker cfg" "reachable cfg s" "env_ok e"
  shows "int (assigned i s) \<le> maxConcurrentPerWorker cfg"
    and "assignWorker cfg e s = Inr (s', Some w) \<Longrightarrow>
           w \<in> set (workers e) \<and> int (assigned (wid w) s) < maxConcurrentPerWorker cfg"
    and "(\<exists>s'. assignWorker cfg e s = Inr (s', None)) =
           (\<forall>w\<in>set (workers e). maxConcurrentPerWorker cfg \<le> int (assigned (wid w) s))"
proof -
  from reachable_inv [OF assms(2,1)]
  have b: "int (assigned i s) \<le> maxConcurrentPerWorker cfg" and ok: "tables_ok s" by simp_all
  from b show "int (assigned i s) \<le> maxConcurrentPerWorker cfg" .
  note aw = assignWorker_ok [OF assms(3) ok, of cfg]
  show "w \<in> set (workers e) \<and> int (assigned (wid w) s) < maxConcurrentPerWorker cfg"
    if "assignWorker cfg e s = Inr (s', Some w)"
  proof -
    from that aw have "eligible cfg e s \<noteq> []" "w = chosen cfg e s" by (auto split: if_splits)
    with chosen_eligible [OF assms(3), of cfg s] have "w \<in> set (eligible cfg e s)"
      by (simp add: chosen_def)
    then show ?thesis by (rule eligible_below)
  qed
  have "(\<exists>s'. assignWorker cfg e s = Inr (s', None)) = (eligible cfg e s = [])"
    using aw by auto
  also have "\<dots> = (\<forall>w\<in>set (workers e). maxConcurrentPerWorker cfg \<le> int (assigned (wid w) s))"
    by (auto simp: eligible_def counted_def isConnected_property_def filter_empty_conv)
  finally show "(\<exists>s'. assignWorker cfg e s = Inr (s', None)) =
           (\<forall>w\<in>set (workers e). maxConcurrentPerWorker cfg \<le> int (assigned (wid w) s))" .
qed

lemma ex_wid: "wid (ex_worker i) = i" "isConnected (ex_worker i)"
  by (simp_all add: ex_worker_def)

lemma ex_env_fields: "workers (ex_env ws) = ws"
  "random (ex_env ws) = \<lparr>mantissa = 0, exponent = 53\<rparr>" "tie (ex_env ws) = 0"
  "now (ex_env ws) = 0"
  by (simp_all add: ex_env_def)

lemma ex_env_ok: "env_ok (ex_env [])" "env_ok (ex_env [ex_worker i])" "env_ok (ex_env [ex_gone i])"
  by (simp_all add: env_ok_def ex_env_fields)

lemma ex_floor: "floor_times (random (ex_env ws)) n = 0"
  by (simp add: floor_times_def ex_env_fields round53_small)

lemma ex_gone_fields: "wid (ex_gone i) = i" "\<not> isConnected (ex_gone i)"
  by (simp_all add: ex_gone_def)

lemma ex_tables_ok: "tables_ok (ex_state [] [] q n)" "tables_ok (ex_state [c] [] q n)"
  "tables_ok (ex_state [] [ev] q n)" "tables_ok (ex_state [c] [ev] q n)"
  by (simp_all add: tables_ok_def ex_state_def)

lemma ex_counted: "counted (ex_env []) = []" "counted (ex_env [ex_worker i]) = [ex_worker i]"
  "counted (ex_env [ex_gone i]) = [ex_gone i]"
  by (simp_all add: counted_def isConnected_property_def ex_env_fields)

lemma ex_worker_entry: "eworker (snd (ex_entry k d w)) = w"
  by (simp add: ex_entry_def)

lemma ex_load: "load i [] = 0" "load i [ex_entry k d w] = (if w = i then 1 else 0)"
  by (simp_all add: load_def ex_entry_def)

lemma ex_purge: "purge e [] = []"
  "purge (ex_env [ex_worker i]) [ex_entry k d w] = (if w = i then [ex_entry k d w] else [])"
  "purge (ex_env [ex_gone i]) [ex_entry k d w] = (if w = i then [ex_entry k d w] else [])"
  by (simp_all add: purge_def ex_counted ex_wid ex_gone_fields split_def ex_worker_entry)

lemma ex_fields:
  "commands (ex_state c ev q n) = c" "events (ex_state c ev q n) = ev"
  "messages (ex_state c ev q n) = q" "allocated (ex_state c ev q n) = n"
  "registration (ex_state c ev q n) = None"
  "ex_state c ev q n\<lparr>commands := c'\<rparr> = ex_state c' ev q n"
  "ex_state c ev q n\<lparr>events := ev'\<rparr> = ex_state c ev' q n"
  "ex_state c ev q n\<lparr>messages := q'\<rparr> = ex_state c ev q' n"
  "ex_state c ev q n\<lparr>allocated := n'\<rparr> = ex_state c ev q n'"
  by (simp_all add: ex_state_def)

lemma ex_assigned: "assigned i (ex_state c ev q n) = load i ev + load i c"
  by (simp add: assigned_def ex_fields)

lemma ex_max: "maxConcurrentPerWorker (ex_config m) = m"
  by (simp add: ex_config_def)

lemma ex_eligible:
  "eligible cfg (ex_env []) s = []"
  "eligible (ex_config m) (ex_env [ex_worker i]) s =
     (if int (assigned i s) < m then [ex_worker i] else [])"
  "eligible (ex_config m) (ex_env [ex_gone i]) s =
     (if int (assigned i s) < m then [ex_gone i] else [])"
  by (simp_all add: eligible_def ex_counted ex_max ex_wid ex_gone_fields)

lemma ex_chosen:
  "int (assigned i s) < m \<Longrightarrow> chosen (ex_config m) (ex_env [ex_worker i]) s = ex_worker i"
  "int (assigned i s) < m \<Longrightarrow> chosen (ex_config m) (ex_env [ex_gone i]) s = ex_gone i"
  by (simp_all add: chosen_def ex_eligible ex_floor)

lemma ex_pop: "pop compare t [x] = Some (x, [])"
  by (simp add: pop_def tops_def compare_refl)

lemma ex_item_fields:
  "mtype (message (ex_item ty k d t)) = ty"
  "mcontext (message (ex_item ty k d t)) = ex_context k"
  "invocationId (ex_context k) = k"
  "ts (ex_item ty k d t) = t"
  by (simp_all add: ex_item_def ex_context_def)

lemma ex_track:
  "track (ex_worker w) (ex_item ''atomist:command'' k d t) (ex_state c ev q n)
     = ex_state (AList.update k (snd (ex_entry k d w)) c) ev q n"
  "track (ex_worker w) (ex_item ''atomist:event'' k d t) (ex_state c ev q n)
     = ex_state c (AList.update k (snd (ex_entry k d w)) ev) q n"
  by (simp_all add: track_def ex_item_def ex_state_def ex_entry_def ex_worker_def Let_def
      ex_context_def)

lemma ex_update: "AList.update k (snd (ex_entry k d w)) [] = [ex_entry k d w]"
  "(k, snd (ex_entry k d w)) = ex_entry k d w"
  by (simp_all add: ex_entry_def)

lemma ex_report:
  "snd (reportQueueLength (ex_config m) s) =
     [Gauge ''work_queue.pending'' (length (messages s)),
      Gauge ''work_queue.events'' (length (events s)),
      Gauge ''work_queue.commands'' (length (commands s))]"
  by (simp add: reportQueueLength_def ex_config_def)

lemma ex_assign_saturated:
  "assignWorker (ex_config 1) (ex_env [ex_worker 1]) (ex_state [ex_entry ''a'' 0 1] [] [] 1)
     = Inr (ex_state [ex_entry ''a'' 0 1] [] [] 1, None)"
  using assignWorker_ok [OF ex_env_ok(2) ex_tables_ok(2), where cfg = "ex_config 1"]
  by (simp add: ex_fields ex_purge ex_eligible ex_assigned ex_load)

lemma ex_dispatch_one:
  assumes "0 < m"
  shows "startMessage (ex_config m) (ex_env [ex_worker 1])
       (ex_state [] [] [ex_item ''atomist:command'' ''a'' 0 0] 1)
     = Inr (ex_state [ex_entry ''a'' 0 1] [] [] 1,
           [NamespaceSet (ex_context ''a''), Log Debug,
            WorkerSend 1 (message (ex_item ''atomist:command'' ''a'' 0 0)),
            Gauge ''work_queue.pending'' 0, Gauge ''work_queue.events'' 0,
            Gauge ''work_queue.commands'' 1])"
proof -
  let ?s = "ex_state [] [] [ex_item ''atomist:command'' ''a'' 0 0] 1"
  have el: "eligible (ex_config m) (ex_env [ex_worker 1]) ?s \<noteq> []"
    using assms by (simp add: ex_eligible ex_assigned ex_load)
  have ne: "messages ?s \<noteq> []" by (simp add: ex_fields)
  from assms have ch: "chosen (ex_config m) (ex_env [ex_worker 1]) ?s = ex_worker 1"
    by (simp add: ex_chosen ex_assigned ex_load)
  from startMessage_dispatch [OF ex_env_ok(2) ex_tables_ok(1) ne el]
  obtain x q where p: "pop compare (tie (ex_env [ex_worker 1])) (messages ?s) = Some (x, q)"
    and st: "startMessage (ex_config m) (ex_env [ex_worker 1]) ?s =
       Inr (track (chosen (ex_config m) (ex_env [ex_worker 1]) ?s) x
              (?s\<lparr>events := purge (ex_env [ex_worker 1]) (events ?s),
                   commands := purge (ex_env [ex_worker 1]) (commands ?s), messages := q\<rparr>),
            NamespaceSet (mcontext (message x))
            # (if mtype (message x) = ''atomist:command'' \<or> mtype (message x) = ''atomist:event''
               then [Log Debug] else [])
            @ WorkerSend (wid (chosen (ex_config m) (ex_env [ex_worker 1]) ?s)) (message x)
            # snd (reportQueueLength (ex_config m)
                (track (chosen (ex_config m) (ex_env [ex_worker 1]) ?s) x
                (?s\<lparr>events := purge (ex_env [ex_worker 1]) (events ?s),
                   commands := purge (ex_env [ex_worker 1]) (commands ?s), messages := q\<rparr>))))"
    by blast
  from p have xq: "x = ex_item ''atomist:command'' ''a'' 0 0" "q = []"
    by (simp_all add: ex_fields ex_pop)
  show ?thesis
    unfolding st xq ch
    by (simp add: ex_fields ex_purge ex_track ex_update ex_report ex_item_fields ex_wid)
qed

lemma ex_invoke:
  "invokeCommand (ex_config 1) (ex_env [ex_worker 1]) (ex_handler_context ''a'' 0) 0 (ex_state [] [] [] 0)
     = Inr (ex_state [ex_entry ''a'' 0 1] [] [] 1,
           [Callback 0, NamespaceSet (ex_context ''a''), Log Debug,
            WorkerSend 1 (message (ex_item ''atomist:command'' ''a'' 0 0)),
            Gauge ''work_queue.pending'' 0, Gauge ''work_queue.events'' 0,
            Gauge ''work_queue.commands'' 1])"
proof -
  have eq: "ex_state [] [] [] 0\<lparr>messages := push (messages (ex_state [] [] [] 0))
      \<lparr>message = \<lparr>mtype = ''atomist:command'', mregistration = registration (ex_state [] [] [] 0),
           mcontext = hcontext (ex_handler_context ''a'' 0), mdata = 0\<rparr>,
       qdispatched = \<lparr>result = allocated (ex_state [] [] [] 0), dcontext = ex_handler_context ''a'' 0\<rparr>,
       ts = now (ex_env [ex_worker 1])\<rparr>,
      allocated := allocated (ex_state [] [] [] 0) + 1\<rparr>
    = ex_state [] [] [ex_item ''atomist:command'' ''a'' 0 0] 1"
    by (simp add: ex_state_def ex_item_def ex_handler_context_def push_def ex_env_def)
  have st: "startMessage (ex_config 1) (ex_env [ex_worker 1])
       (ex_state [] [] [ex_item ''atomist:command'' ''a'' 0 0] 1)
     = Inr (ex_state [ex_entry ''a'' 0 1] [] [] 1,
           [NamespaceSet (ex_context ''a''), Log Debug,
            WorkerSend 1 (message (ex_item ''atomist:command'' ''a'' 0 0)),
            Gauge ''work_queue.pending'' 0, Gauge ''work_queue.events'' 0,
            Gauge ''work_queue.commands'' 1])"
    by (rule ex_dispatch_one) simp
  show ?thesis
    unfolding invokeCommand_def enqueue_def Let_def eq st
    by (simp add: ex_fields)
qed

lemma ex_reachable: "reachable (ex_config 1) (ex_state [ex_entry ''a'' 0 1] [] [] 1)"
proof -
  have "reachable (ex_config 1) (ex_state [] [] [] 0)"
    using r_initial [of "ex_config 1"] by (simp add: initial_def ex_state_def)
  from r_step [OF this s_command [OF ex_env_ok(2) ex_invoke]] show ?thesis .
qed

text \<open>One command in flight on the only worker, limit 1: the worker is at its limit and is not
  returned; with nothing in flight it is.\<close>

lemma ex_assign_free:
  "assignWorker (ex_config 1) (ex_env [ex_worker 1]) (ex_state [] [] [] 0)
     = Inr (ex_state [] [] [] 0, Some (ex_worker 1))"
  using assignWorker_ok [OF ex_env_ok(2) ex_tables_ok(1), where cfg = "ex_config 1"]
  by (simp add: ex_fields ex_purge ex_eligible ex_assigned ex_load ex_chosen)

text \<open>
  C3, as the code has it. An invocation of the dispatch step dispatches one item at most.
  With an empty queue it does nothing but report. Otherwise it runs an assignment pass;
  when that returns no worker the queue stays as it is; when it returns a worker, the step
  pops one item that the comparator puts before or level with every queued item, tracks it
  under its invocation identity with its \<^verbatim>\<open>dispatched\<close> and the worker's id (in
  \<^verbatim>\<open>commands\<close> or \<^verbatim>\<open>events\<close> by its type), sends its message to that worker and
  reports. The queue is one item shorter; there is no loop.
\<close>

theorem dispatch_step:
  assumes "env_ok e" "tables_ok s"
  shows "(messages s = [] \<longrightarrow> startMessage cfg e s = Inr (s, snd (reportQueueLength cfg s)))
       \<and> (messages s \<noteq> [] \<and> eligible cfg e s = [] \<longrightarrow>
            (\<exists>s'. assignWorker cfg e s = Inr (s', None) \<and> messages s' = messages s
                \<and> startMessage cfg e s = Inr (s', snd (reportQueueLength cfg s'))))
       \<and> (messages s \<noteq> [] \<and> eligible cfg e s \<noteq> [] \<longrightarrow>
            (\<exists>s1 w m q s'. assignWorker cfg e s = Inr (s1, Some w)
                \<and> pop compare (tie e) (messages s) = Some (m, q)
                \<and> (\<forall>y\<in>set (messages s). compare m y \<le> 0)
                \<and> length (messages s) = Suc (length q)
                \<and> s' = track w m (s1\<lparr>messages := q\<rparr>)
                \<and> messages s' = q
                \<and> (mtype (message m) = ''atomist:command'' \<longrightarrow>
                     map_of (commands s') (invocationId (mcontext (message m)))
                       = Some \<lparr>edispatched = qdispatched m, eworker = wid w\<rparr>)
                \<and> (mtype (message m) = ''atomist:event'' \<longrightarrow>
                     map_of (events s') (invocationId (mcontext (message m)))
                       = Some \<lparr>edispatched = qdispatched m, eworker = wid w\<rparr>)
                \<and> startMessage cfg e s =
                     Inr (s', NamespaceSet (mcontext (message m))
                        # (if mtype (message m) = ''atomist:command''
                              \<or> mtype (message m) = ''atomist:event''
                           then [Log Debug] else [])
                        @ WorkerSend (wid w) (message m) # snd (reportQueueLength cfg s'))))"
proof (intro conjI impI)
  assume "messages s = []"
  then show "startMessage cfg e s = Inr (s, snd (reportQueueLength cfg s))"
    by (rule startMessage_empty)
next
  assume a: "messages s \<noteq> [] \<and> eligible cfg e s = []"
  let ?s1 = "s\<lparr>events := purge e (events s), commands := purge e (commands s)\<rparr>"
  from a have "assignWorker cfg e s = Inr (?s1, None)" by (simp add: assignWorker_ok [OF assms])
  moreover have "messages ?s1 = messages s" by simp
  moreover from a startMessage_saturated [OF assms, of cfg]
  have "startMessage cfg e s = Inr (?s1, snd (reportQueueLength cfg ?s1))" by simp
  ultimately show "\<exists>s'. assignWorker cfg e s = Inr (s', None) \<and> messages s' = messages s
                \<and> startMessage cfg e s = Inr (s', snd (reportQueueLength cfg s'))" by blast
next
  assume a: "messages s \<noteq> [] \<and> eligible cfg e s \<noteq> []"
  let ?s1 = "s\<lparr>events := purge e (events s), commands := purge e (commands s)\<rparr>"
  let ?w = "chosen cfg e s"
  from a have aw: "assignWorker cfg e s = Inr (?s1, Some ?w)" by (simp add: assignWorker_ok [OF assms])
  from a startMessage_dispatch [OF assms, of cfg]
  obtain m q where p: "pop compare (tie e) (messages s) = Some (m, q)"
    and st: "startMessage cfg e s =
       Inr (track ?w m (s\<lparr>events := purge e (events s), commands := purge e (commands s), messages := q\<rparr>),
            NamespaceSet (mcontext (message m))
            # (if mtype (message m) = ''atomist:command'' \<or> mtype (message m) = ''atomist:event''
               then [Log Debug] else [])
            @ WorkerSend (wid ?w) (message m)
            # snd (reportQueueLength cfg (track ?w m
                (s\<lparr>events := purge e (events s), commands := purge e (commands s), messages := q\<rparr>))))"
    by blast
  let ?s' = "track ?w m (?s1\<lparr>messages := q\<rparr>)"
  have least: "\<forall>y\<in>set (messages s). compare m y \<le> 0" using pop_least [OF p] by blast
  have len: "length (messages s) = Suc (length q)" by (rule pop_length [OF p])
  have mq: "messages ?s' = q" by (simp add: track_def Let_def)
  have c: "mtype (message m) = ''atomist:command'' \<longrightarrow>
       map_of (commands ?s') (invocationId (mcontext (message m)))
         = Some \<lparr>edispatched = qdispatched m, eworker = wid ?w\<rparr>"
    by (simp add: track_def Let_def update_conv')
  have ev: "mtype (message m) = ''atomist:event'' \<longrightarrow>
       map_of (events ?s') (invocationId (mcontext (message m)))
         = Some \<lparr>edispatched = qdispatched m, eworker = wid ?w\<rparr>"
    by (simp add: track_def Let_def update_conv')
  from aw p least len mq c ev st
  show "\<exists>s1 w m q s'. assignWorker cfg e s = Inr (s1, Some w)
                \<and> pop compare (tie e) (messages s) = Some (m, q)
                \<and> (\<forall>y\<in>set (messages s). compare m y \<le> 0)
                \<and> length (messages s) = Suc (length q)
                \<and> s' = track w m (s1\<lparr>messages := q\<rparr>)
                \<and> messages s' = q
                \<and> (mtype (message m) = ''atomist:command'' \<longrightarrow>
                     map_of (commands s') (invocationId (mcontext (message m)))
                       = Some \<lparr>edispatched = qdispatched m, eworker = wid w\<rparr>)
                \<and> (mtype (message m) = ''atomist:event'' \<longrightarrow>
                     map_of (events s') (invocationId (mcontext (message m)))
                       = Some \<lparr>edispatched = qdispatched m, eworker = wid w\<rparr>)
                \<and> startMessage cfg e s =
                     Inr (s', NamespaceSet (mcontext (message m))
                        # (if mtype (message m) = ''atomist:command''
                              \<or> mtype (message m) = ''atomist:event''
                           then [Log Debug] else [])
                        @ WorkerSend (wid w) (message m) # snd (reportQueueLength cfg s'))"
    by (intro exI [of _ ?s1] exI [of _ ?w] exI [of _ m] exI [of _ q] exI [of _ ?s']) simp
qed

lemma ex_pop2:
  "compare x y \<le> 0 \<Longrightarrow> \<not> compare y x \<le> 0 \<Longrightarrow> pop compare 0 [x, y] = Some (x, [y])"
  by (simp add: pop_def tops_def compare_refl upt_rec [of 0] upt_rec [of 1] upt_rec [of 2])

lemma ex_dispatch:
  assumes "tables_ok s" "pop compare 0 (messages s) = Some (x, q)" "int (assigned i s) < m"
  shows "startMessage (ex_config m) (ex_env [ex_worker i]) s =
     Inr (track (ex_worker i) x
           (s\<lparr>events := purge (ex_env [ex_worker i]) (events s),
               commands := purge (ex_env [ex_worker i]) (commands s), messages := q\<rparr>),
          NamespaceSet (mcontext (message x))
          # (if mtype (message x) = ''atomist:command'' \<or> mtype (message x) = ''atomist:event''
             then [Log Debug] else [])
          @ WorkerSend i (message x)
          # snd (reportQueueLength (ex_config m) (track (ex_worker i) x
           (s\<lparr>events := purge (ex_env [ex_worker i]) (events s),
               commands := purge (ex_env [ex_worker i]) (commands s), messages := q\<rparr>))))"
proof -
  from assms(2) have ne: "messages s \<noteq> []" by (auto simp: pop_def tops_def)
  from assms(3) have el: "eligible (ex_config m) (ex_env [ex_worker i]) s \<noteq> []"
    by (simp add: ex_eligible)
  from assms(3) have ch: "chosen (ex_config m) (ex_env [ex_worker i]) s = ex_worker i"
    by (simp add: ex_chosen)
  from startMessage_dispatch [OF ex_env_ok(2) assms(1) ne el]
  obtain x' q' where p: "pop compare (tie (ex_env [ex_worker i])) (messages s) = Some (x', q')"
    and st: "startMessage (ex_config m) (ex_env [ex_worker i]) s =
       Inr (track (chosen (ex_config m) (ex_env [ex_worker i]) s) x'
              (s\<lparr>events := purge (ex_env [ex_worker i]) (events s),
                   commands := purge (ex_env [ex_worker i]) (commands s), messages := q'\<rparr>),
            NamespaceSet (mcontext (message x'))
            # (if mtype (message x') = ''atomist:command'' \<or> mtype (message x') = ''atomist:event''
               then [Log Debug] else [])
            @ WorkerSend (wid (chosen (ex_config m) (ex_env [ex_worker i]) s)) (message x')
            # snd (reportQueueLength (ex_config m)
                (track (chosen (ex_config m) (ex_env [ex_worker i]) s) x'
                (s\<lparr>events := purge (ex_env [ex_worker i]) (events s),
                   commands := purge (ex_env [ex_worker i]) (commands s), messages := q'\<rparr>))))"
    by blast
  from p assms(2) have "x' = x" "q' = q" by (simp_all add: ex_env_fields)
  then show ?thesis unfolding st ch by (simp add: ex_wid)
qed

lemma ex_compare:
  "compare (ex_item ''atomist:command'' k d t) (ex_item ''atomist:command'' k' d' t') = t - t'"
  by (simp add: compare_def ex_item_fields)

text \<open>One queued command, one worker below its limit: the command is popped, tracked under
  its identity with worker 1, and sent to worker 1.\<close>

theorem dispatch_step_witness:
  "env_ok (ex_env [ex_worker 1])
   \<and> tables_ok (ex_state [] [] [ex_item ''atomist:command'' ''a'' 0 0] 1)
   \<and> messages (ex_state [] [] [ex_item ''atomist:command'' ''a'' 0 0] 1) \<noteq> []
   \<and> eligible (ex_config 4) (ex_env [ex_worker 1])
        (ex_state [] [] [ex_item ''atomist:command'' ''a'' 0 0] 1) \<noteq> []
   \<and> startMessage (ex_config 4) (ex_env [ex_worker 1])
        (ex_state [] [] [ex_item ''atomist:command'' ''a'' 0 0] 1)
     = Inr (ex_state [ex_entry ''a'' 0 1] [] [] 1,
           [NamespaceSet (ex_context ''a''), Log Debug,
            WorkerSend 1 (message (ex_item ''atomist:command'' ''a'' 0 0)),
            Gauge ''work_queue.pending'' 0, Gauge ''work_queue.events'' 0,
            Gauge ''work_queue.commands'' 1])"
proof -
  let ?s = "ex_state [] [] [ex_item ''atomist:command'' ''a'' 0 0] 1"
  have h: "messages ?s \<noteq> []" "eligible (ex_config 4) (ex_env [ex_worker 1]) ?s \<noteq> []"
    by (simp_all add: ex_fields ex_eligible ex_assigned ex_load)
  from dispatch_step [OF ex_env_ok(2) ex_tables_ok(1), where cfg = "ex_config 4"] h
  have "\<exists>s' effs. startMessage (ex_config 4) (ex_env [ex_worker 1]) ?s = Inr (s', effs)"
    by blast
  moreover have "startMessage (ex_config 4) (ex_env [ex_worker 1]) ?s
     = Inr (ex_state [ex_entry ''a'' 0 1] [] [] 1,
           [NamespaceSet (ex_context ''a''), Log Debug,
            WorkerSend 1 (message (ex_item ''atomist:command'' ''a'' 0 0)),
            Gauge ''work_queue.pending'' 0, Gauge ''work_queue.events'' 0,
            Gauge ''work_queue.commands'' 1])"
    by (rule ex_dispatch_one) simp
  ultimately show ?thesis using h ex_env_ok(2) ex_tables_ok(1) by simp
qed

text \<open>
  C3 as stated fails. Two commands are queued and the only worker may hold four items. One
  invocation of the dispatch step dispatches the first command and returns: the second is
  still queued although an assignment pass would again return worker 1, which has
  capacity.
\<close>

theorem dispatch_step_counterexample:
  "startMessage (ex_config 4) (ex_env [ex_worker 1])
     (ex_state [] [] [ex_item ''atomist:command'' ''a'' 0 10, ex_item ''atomist:command'' ''b'' 1 20] 2)
     = Inr (ex_state [ex_entry ''a'' 0 1] [] [ex_item ''atomist:command'' ''b'' 1 20] 2,
           [NamespaceSet (ex_context ''a''), Log Debug,
            WorkerSend 1 (message (ex_item ''atomist:command'' ''a'' 0 10)),
            Gauge ''work_queue.pending'' 1, Gauge ''work_queue.events'' 0,
            Gauge ''work_queue.commands'' 1])
   \<and> messages (ex_state [ex_entry ''a'' 0 1] [] [ex_item ''atomist:command'' ''b'' 1 20] 2) \<noteq> []
   \<and> assignWorker (ex_config 4) (ex_env [ex_worker 1])
        (ex_state [ex_entry ''a'' 0 1] [] [ex_item ''atomist:command'' ''b'' 1 20] 2)
     = Inr (ex_state [ex_entry ''a'' 0 1] [] [ex_item ''atomist:command'' ''b'' 1 20] 2,
            Some (ex_worker 1))"
proof -
  let ?a = "ex_item ''atomist:command'' ''a'' 0 10" and ?b = "ex_item ''atomist:command'' ''b'' 1 20"
  have p: "pop compare 0 (messages (ex_state [] [] [?a, ?b] 2)) = Some (?a, [?b])"
    by (simp add: ex_fields ex_pop2 ex_compare)
  have "startMessage (ex_config 4) (ex_env [ex_worker 1]) (ex_state [] [] [?a, ?b] 2)
     = Inr (ex_state [ex_entry ''a'' 0 1] [] [?b] 2,
           [NamespaceSet (ex_context ''a''), Log Debug, WorkerSend 1 (message ?a),
            Gauge ''work_queue.pending'' 1, Gauge ''work_queue.events'' 0,
            Gauge ''work_queue.commands'' 1])"
  proof -
    have "int (assigned 1 (ex_state [] [] [?a, ?b] 2)) < 4" by (simp add: ex_assigned ex_load)
    note st = ex_dispatch [OF ex_tables_ok(1) p this]
    show ?thesis
      unfolding st
      by (simp add: ex_fields ex_purge ex_track ex_update ex_report ex_item_fields)
  qed
  moreover have "assignWorker (ex_config 4) (ex_env [ex_worker 1]) (ex_state [ex_entry ''a'' 0 1] [] [?b] 2)
     = Inr (ex_state [ex_entry ''a'' 0 1] [] [?b] 2, Some (ex_worker 1))"
    using assignWorker_ok [OF ex_env_ok(2) ex_tables_ok(2), where cfg = "ex_config 4"]
    by (simp add: ex_fields ex_purge ex_eligible ex_assigned ex_load ex_chosen)
  ultimately show ?thesis by (simp add: ex_fields)
qed

section \<open>Replies\<close>









section \<open>Metrics\<close>

lemma table_size: "distinct (map fst tbl) \<Longrightarrow> card (dom (map_of tbl)) = length tbl"
proof -
  assume d: "distinct (map fst tbl)"
  have "card (dom (map_of tbl)) = card (set (map fst tbl))"
    by (simp add: dom_map_of_conv_image_fst)
  also from d have "\<dots> = length (map fst tbl)" by (rule distinct_card)
  finally show ?thesis by simp
qed

text \<open>
  C8. A report changes nothing in the state. With the sink enabled (and its client
  there) it emits three gauges: the length of the queue, the size of \<^verbatim>\<open>events\<close> and the
  size of \<^verbatim>\<open>commands\<close>; with the sink disabled it emits nothing. In a reachable state
  the sizes are the numbers of invocation identities the tables hold.
\<close>

theorem report_gauges:
  "reportQueueLength cfg s =
     (s, if statsd_enabled cfg \<and> statsd_instance cfg
         then [Gauge ''work_queue.pending'' (length (messages s)),
               Gauge ''work_queue.events'' (length (events s)),
               Gauge ''work_queue.commands'' (length (commands s))]
         else [])
   \<and> (reachable cfg s \<longrightarrow>
        length (events s) = card (dom (map_of (events s)))
        \<and> length (commands s) = card (dom (map_of (commands s))))"
proof -
  have "reachable cfg s \<longrightarrow>
        length (events s) = card (dom (map_of (events s)))
        \<and> length (commands s) = card (dom (map_of (commands s)))"
    using reachable_tables [of cfg s] by (simp add: tables_ok_def table_size)
  then show ?thesis by (simp add: reportQueueLength_def)
qed

text \<open>With one command in flight and nothing queued.\<close>

theorem report_gauges_witness:
  "reachable (ex_config 1) (ex_state [ex_entry ''a'' 0 1] [] [] 1)
   \<and> reportQueueLength (ex_config 1) (ex_state [ex_entry ''a'' 0 1] [] [] 1)
     = (ex_state [ex_entry ''a'' 0 1] [] [] 1,
        [Gauge ''work_queue.pending'' 0, Gauge ''work_queue.events'' 0,
         Gauge ''work_queue.commands'' 1])
   \<and> length (commands (ex_state [ex_entry ''a'' 0 1] [] [] 1))
     = card (dom (map_of (commands (ex_state [ex_entry ''a'' 0 1] [] [] 1))))"
  using report_gauges [of "ex_config 1" "ex_state [ex_entry ''a'' 0 1] [] [] 1"] ex_reachable
  by (simp add: ex_fields ex_config_def)

section \<open>Deferred results that are never completed\<close>

lemma settled_simps:
  "settled [] = []" "settled (x # xs) = target x @ settled xs"
  "settled (xs @ ys) = settled xs @ settled ys"
  by (simp_all add: settled_def)

lemma settled_settlements: "settlements effs = [] \<Longrightarrow> settled effs = []"
proof (induction effs)
  case Nil
  then show ?case by (simp add: settled_simps)
next
  case (Cons x xs)
  then show ?case by (cases x) (auto simp: settled_simps settlements_def split: if_splits)
qed

lemma mset_update_le:
  "mset (table_handles (AList.update k v tbl))
     \<subseteq># add_mset (result (edispatched v)) (mset (table_handles tbl))"
proof (induction tbl)
  case Nil
  then show ?case by (simp add: table_handles_def)
next
  case (Cons p tbl)
  obtain k' en where p: "p = (k', en)" by (cases p)
  show ?case
  proof (cases "k' = k")
    case True
    then show ?thesis by (simp add: p table_handles_def)
  next
    case False
    with Cons show ?thesis by (simp add: p table_handles_def add_mset_commute)
  qed
qed

lemma mset_filter_le: "mset (table_handles (filter P tbl)) \<subseteq># mset (table_handles tbl)"
  unfolding table_handles_def
  by (metis image_mset_subseteq_mono mset_filter mset_map multiset_filter_subset)

lemma mset_purge_le: "mset (table_handles (purge e tbl)) \<subseteq># mset (table_handles tbl)"
  unfolding purge_def by (rule mset_filter_le)

lemma mset_delete_le: "mset (table_handles (AList.delete k tbl)) \<subseteq># mset (table_handles tbl)"
  unfolding AList.delete_eq by (rule mset_filter_le)

lemma handles_mset:
  "mset (handles s) =
     mset (table_handles (commands s)) + mset (table_handles (events s))
     + mset (queue_handles (messages s))"
  by (simp add: handles_def)

lemma track_handles:
  "mset (handles (track w m s)) \<subseteq># add_mset (result (qdispatched m)) (mset (handles s))"
proof -
  let ?k = "invocationId (mcontext (message m))"
  let ?en = "\<lparr>edispatched = qdispatched m, eworker = wid w\<rparr>"
  have u: "\<And>tbl. mset (table_handles (AList.update ?k ?en tbl))
      \<subseteq># add_mset (result (qdispatched m)) (mset (table_handles tbl))"
    using mset_update_le [of ?k ?en] by simp
  consider "mtype (message m) = ''atomist:command''"
    | "mtype (message m) \<noteq> ''atomist:command''" "mtype (message m) = ''atomist:event''"
    | "mtype (message m) \<noteq> ''atomist:command''" "mtype (message m) \<noteq> ''atomist:event''"
    by blast
  then show ?thesis
  proof cases
    case 1
    then have "mset (handles (track w m s)) =
        mset (table_handles (AList.update ?k ?en (commands s)))
        + (mset (table_handles (events s)) + mset (queue_handles (messages s)))"
      by (simp add: track_def Let_def handles_mset)
    also have "\<dots> \<subseteq># add_mset (result (qdispatched m)) (mset (table_handles (commands s)))
        + (mset (table_handles (events s)) + mset (queue_handles (messages s)))"
      by (rule subset_mset.add_right_mono [OF u])
    also have "\<dots> = add_mset (result (qdispatched m)) (mset (handles s))"
      by (simp add: handles_mset)
    finally show ?thesis .
  next
    case 2
    then have "mset (handles (track w m s)) =
        mset (table_handles (AList.update ?k ?en (events s)))
        + (mset (table_handles (commands s)) + mset (queue_handles (messages s)))"
      by (simp add: track_def Let_def handles_mset)
    also have "\<dots> \<subseteq># add_mset (result (qdispatched m)) (mset (table_handles (events s)))
        + (mset (table_handles (commands s)) + mset (queue_handles (messages s)))"
      by (rule subset_mset.add_right_mono [OF u])
    also have "\<dots> = add_mset (result (qdispatched m)) (mset (handles s))"
      by (simp add: handles_mset)
    finally show ?thesis .
  next
    case 3
    then show ?thesis by (simp add: track_def Let_def)
  qed
qed

lemma purged_handles:
  "mset (handles (s\<lparr>events := purge e (events s), commands := purge e (commands s)\<rparr>))
     \<subseteq># mset (handles s)"
proof -
  have "mset (table_handles (purge e (commands s))) + mset (table_handles (purge e (events s)))
      \<subseteq># mset (table_handles (commands s)) + mset (table_handles (events s))"
    by (intro subset_mset.add_mono mset_purge_le)
  then have "mset (table_handles (purge e (commands s))) + mset (table_handles (purge e (events s)))
        + mset (queue_handles (messages s))
      \<subseteq># mset (table_handles (commands s)) + mset (table_handles (events s))
        + mset (queue_handles (messages s))"
    by (rule subset_mset.add_right_mono)
  then show ?thesis by (simp add: handles_mset)
qed

lemma startMessage_handles:
  assumes "env_ok e" "tables_ok s" "startMessage cfg e s = Inr (s', effs)"
  shows "mset (handles s') \<subseteq># mset (handles s)" and "allocated s' = allocated s"
proof -
  let ?s1 = "s\<lparr>events := purge e (events s), commands := purge e (commands s)\<rparr>"
  have "mset (handles s') \<subseteq># mset (handles s) \<and> allocated s' = allocated s"
  proof (cases "messages s = []")
    case True
    with assms(3) show ?thesis by (simp add: startMessage_empty)
  next
    case False
    show ?thesis
    proof (cases "eligible cfg e s = []")
      case True
      with startMessage_saturated [OF assms(1,2) False, of cfg] assms(3) have "s' = ?s1" by simp
      then show ?thesis using purged_handles [of e s] by simp
    next
      case el: False
      from startMessage_dispatch [OF assms(1,2) False el]
      obtain m q where p: "pop compare (tie e) (messages s) = Some (m, q)"
        and st: "startMessage cfg e s =
          Inr (track (chosen cfg e s) m
              (s\<lparr>events := purge e (events s), commands := purge e (commands s), messages := q\<rparr>),
            NamespaceSet (mcontext (message m))
            # (if mtype (message m) = ''atomist:command'' \<or> mtype (message m) = ''atomist:event''
               then [Log Debug] else [])
            @ WorkerSend (wid (chosen cfg e s)) (message m)
            # snd (reportQueueLength cfg (track (chosen cfg e s) m
                (s\<lparr>events := purge e (events s), commands := purge e (commands s), messages := q\<rparr>))))"
        by blast
      from st assms(3) have s': "s' = track (chosen cfg e s) m (?s1\<lparr>messages := q\<rparr>)" by simp
      have "mset (handles s')
          \<subseteq># add_mset (result (qdispatched m)) (mset (handles (?s1\<lparr>messages := q\<rparr>)))"
        unfolding s' by (rule track_handles)
      also have "add_mset (result (qdispatched m)) (mset (handles (?s1\<lparr>messages := q\<rparr>)))
          = mset (handles ?s1)"
        using pop_mset [OF p] by (simp add: handles_mset queue_handles_def)
      also have "\<dots> \<subseteq># mset (handles s)" by (rule purged_handles)
      finally have "mset (handles s') \<subseteq># mset (handles s)" .
      moreover have "allocated s' = allocated s" unfolding s' by (simp add: track_def Let_def)
      ultimately show ?thesis by simp
    qed
  qed
  then show "mset (handles s') \<subseteq># mset (handles s)" and "allocated s' = allocated s"
    by simp_all
qed

lemma enqueue_handles:
  assumes "env_ok e" "tables_ok s" "enqueue ty cfg e ctx body s = Inr (s', effs)"
  shows "mset (handles s') \<subseteq># add_mset (allocated s) (mset (handles s))"
    and "allocated s' = allocated s + 1"
    and "settled effs = []"
proof -
  let ?s1 = "s\<lparr>messages := push (messages s)
      \<lparr>message = \<lparr>mtype = ty, mregistration = registration s, mcontext = hcontext ctx, mdata = body\<rparr>,
       qdispatched = \<lparr>result = allocated s, dcontext = ctx\<rparr>, ts = now e\<rparr>,
      allocated := allocated s + 1\<rparr>"
  from assms(3) obtain effs' where st: "startMessage cfg e ?s1 = Inr (s', effs')"
    and effs: "effs = Callback (allocated s) # effs'"
    by (auto simp: enqueue_def Let_def split: sum.splits)
  from assms(2) have ok: "tables_ok ?s1" by (simp add: tables_ok_def)
  have h1: "mset (handles ?s1) = add_mset (allocated s) (mset (handles s))"
    by (simp add: handles_mset queue_handles_def push_def)
  from startMessage_handles [OF assms(1) ok st] h1
  show "mset (handles s') \<subseteq># add_mset (allocated s) (mset (handles s))"
    and "allocated s' = allocated s + 1" by simp_all
  from startMessage_settles_nothing [OF st] show "settled effs = []"
    by (simp add: effs settled_simps settled_settlements)
qed

lemma outcome_handles:
  assumes "env_ok e" "tables_ok s1" "outcome cfg e call c msg s (s1, effs1) = Inr (s', effs)"
  shows "mset (handles s') \<subseteq># mset (handles s1)" and "allocated s' = allocated s1"
    and "settled effs = settled effs1"
proof -
  from assms(3) obtain effs' where st: "startMessage cfg e s1 = Inr (s', effs')"
    and effs: "effs = NamespaceSet c # Log Debug
                      # Listeners call (wevent msg) c (wdata msg)
                      # (if listeners_fail e then [Log Warn] else [])
                      @ effs1 @ ClearNamespace # effs'"
    by (auto simp: outcome_def split: sum.splits)
  from startMessage_handles [OF assms(1,2) st]
  show "mset (handles s') \<subseteq># mset (handles s1)" and "allocated s' = allocated s1" by simp_all
  from startMessage_settles_nothing [OF st] show "settled effs = settled effs1"
    by (simp add: effs settled_simps settled_settlements)
qed

lemma settle_settled:
  assumes "how = Resolve \<or> how = Reject"
  shows "set (settled (snd (settle how k d tbl))) \<subseteq> set (table_handles tbl)"
proof (cases "map_of tbl k")
  case None
  then show ?thesis by (simp add: settle_def settled_simps)
next
  case (Some en)
  then have "(k, en) \<in> set tbl" by (rule map_of_SomeD)
  then have "result (edispatched en) \<in> set (table_handles tbl)"
    by (force simp: table_handles_def)
  with Some assms show ?thesis by (auto simp: settle_def settled_simps)
qed

lemma onMessage_quiet:
  assumes "onMessage cfg e msg s = Inr (s', effs)"
    "\<And>ty. wtype msg = Text ty \<Longrightarrow> wcontext msg \<noteq> None \<Longrightarrow>
       ty \<notin> {''atomist:command_success'', ''atomist:command_failure'',
              ''atomist:event_success'', ''atomist:event_failure''}"
  shows "settled effs = []"
proof (cases "wtype msg")
  case Falsy
  with assms(1) show ?thesis by (auto simp: onMessage_def settled_simps)
next
  case Truthy
  with assms(1) show ?thesis by (simp add: onMessage_def)
next
  case (Text ty)
  show ?thesis
  proof (cases "wcontext msg")
    case None
    with assms(1) Text show ?thesis by (auto simp: onMessage_def settled_simps split: if_splits)
  next
    case (Some c)
    with assms(2) [OF Text] have "ty \<noteq> ''atomist:command_success''"
      "ty \<noteq> ''atomist:command_failure''" "ty \<noteq> ''atomist:event_success''"
      "ty \<noteq> ''atomist:event_failure''" by auto
    with assms(1) Text Some show ?thesis
      by (auto simp: onMessage_def Let_def settled_simps
          split: if_splits option.splits list.splits)
  qed
qed

lemma onMessage_shape:
  assumes "onMessage cfg e msg s = Inr (s', effs)"
  shows "(s' = s \<and> settled effs = []) \<or>
    (\<exists>call how k c. (how = Resolve \<or> how = Reject) \<and> outcome cfg e call c msg s
        (s\<lparr>commands := fst (settle how k (wdata msg) (commands s))\<rparr>,
         snd (settle how k (wdata msg) (commands s)))
          = Inr (s', effs)) \<or>
    (\<exists>call how k c. (how = Resolve \<or> how = Reject) \<and> outcome cfg e call c msg s
        (s\<lparr>events := fst (settle how k (wdata msg) (events s))\<rparr>,
         snd (settle how k (wdata msg) (events s)))
          = Inr (s', effs))"
proof (cases "\<exists>ty c. wtype msg = Text ty \<and> wcontext msg = Some c \<and>
      ty \<in> {''atomist:command_success'', ''atomist:command_failure'',
              ''atomist:event_success'', ''atomist:event_failure''}")
  case False
  then have "s' = s" "settled effs = []"
    by (intro onMessage_others [OF assms] onMessage_quiet [OF assms]; auto)+
  then show ?thesis by simp
next
  case True
  then obtain ty c where t: "wtype msg = Text ty" "wcontext msg = Some c"
    and "ty \<in> {''atomist:command_success'', ''atomist:command_failure'',
              ''atomist:event_success'', ''atomist:event_failure''}" by blast
  then consider "ty = ''atomist:command_success''" | "ty = ''atomist:command_failure''"
    | "ty = ''atomist:event_success''" | "ty = ''atomist:event_failure''" by auto
  then show ?thesis
  proof cases
    case 1
    from onMessage_outcomes(1) [OF t 1, of cfg e s] assms show ?thesis by metis
  next
    case 2
    from onMessage_outcomes(2) [OF t 2, of cfg e s] assms show ?thesis by metis
  next
    case 3
    from onMessage_outcomes(3) [OF t 3, of cfg e s] assms show ?thesis by metis
  next
    case 4
    from onMessage_outcomes(4) [OF t 4, of cfg e s] assms show ?thesis by metis
  qed
qed

lemma onMessage_handles:
  assumes "env_ok e" "tables_ok s" "onMessage cfg e msg s = Inr (s', effs)"
  shows "mset (handles s') \<subseteq># mset (handles s)" and "allocated s' = allocated s"
    and "set (settled effs) \<subseteq> set (handles s)"
proof -
  from onMessage_shape [OF assms(3)]
  consider (same) "s' = s" "settled effs = []"
    | (cmd) call how k c where "how = Resolve \<or> how = Reject"
        "outcome cfg e call c msg s
           (s\<lparr>commands := fst (settle how k (wdata msg) (commands s))\<rparr>,
            snd (settle how k (wdata msg) (commands s))) = Inr (s', effs)"
    | (evt) call how k c where "how = Resolve \<or> how = Reject"
        "outcome cfg e call c msg s
           (s\<lparr>events := fst (settle how k (wdata msg) (events s))\<rparr>,
            snd (settle how k (wdata msg) (events s))) = Inr (s', effs)"
    by blast
  then have "mset (handles s') \<subseteq># mset (handles s) \<and> allocated s' = allocated s
      \<and> set (settled effs) \<subseteq> set (handles s)"
  proof cases
    case same
    then show ?thesis by simp
  next
    case (cmd call how k c)
    let ?s1 = "s\<lparr>commands := fst (settle how k (wdata msg) (commands s))\<rparr>"
    note how = cmd(1) and o = cmd(2)
    from settled_inv(1) [OF assms(2)] have ok: "tables_ok ?s1" .
    have "mset (table_handles (AList.delete k (commands s))) + mset (table_handles (events s))
        + mset (queue_handles (messages s))
      \<subseteq># mset (table_handles (commands s)) + mset (table_handles (events s))
        + mset (queue_handles (messages s))"
      by (intro subset_mset.add_right_mono mset_delete_le)
    then have le: "mset (handles ?s1) \<subseteq># mset (handles s)"
      by (simp add: handles_mset settle_table)
    from outcome_handles(1) [OF assms(1) ok o] le
    have a: "mset (handles s') \<subseteq># mset (handles s)" by (rule subset_mset.trans)
    from outcome_handles(2) [OF assms(1) ok o] have b: "allocated s' = allocated s" by simp
    from outcome_handles(3) [OF assms(1) ok o] settle_settled [OF how, of k "wdata msg" "commands s"]
    have "set (settled effs) \<subseteq> set (handles s)" by (auto simp: handles_def)
    with a b show ?thesis by simp
  next
    case (evt call how k c)
    let ?s1 = "s\<lparr>events := fst (settle how k (wdata msg) (events s))\<rparr>"
    note how = evt(1) and o = evt(2)
    from settled_inv(2) [OF assms(2)] have ok: "tables_ok ?s1" .
    have "mset (table_handles (AList.delete k (events s))) \<subseteq># mset (table_handles (events s))"
      by (rule mset_delete_le)
    then have "mset (table_handles (commands s)) + mset (table_handles (AList.delete k (events s)))
      \<subseteq># mset (table_handles (commands s)) + mset (table_handles (events s))"
      by (rule subset_mset.add_left_mono)
    then have "mset (table_handles (commands s)) + mset (table_handles (AList.delete k (events s)))
        + mset (queue_handles (messages s))
      \<subseteq># mset (table_handles (commands s)) + mset (table_handles (events s))
        + mset (queue_handles (messages s))"
      by (rule subset_mset.add_right_mono)
    then have le: "mset (handles ?s1) \<subseteq># mset (handles s)"
      by (simp add: handles_mset settle_table)
    from outcome_handles(1) [OF assms(1) ok o] le
    have a: "mset (handles s') \<subseteq># mset (handles s)" by (rule subset_mset.trans)
    from outcome_handles(2) [OF assms(1) ok o] have b: "allocated s' = allocated s" by simp
    from outcome_handles(3) [OF assms(1) ok o] settle_settled [OF how, of k "wdata msg" "events s"]
    have "set (settled effs) \<subseteq> set (handles s)" by (auto simp: handles_def)
    with a b show ?thesis by simp
  qed
  then show "mset (handles s') \<subseteq># mset (handles s)" and "allocated s' = allocated s"
    and "set (settled effs) \<subseteq> set (handles s)" by simp_all
qed

lemma step_handles:
  assumes "step cfg s effs s'" "tables_ok s"
  shows "allocated s \<le> allocated s'"
    and "mset (handles s') \<subseteq># mset (handles s) + mset [allocated s..<allocated s']"
    and "set (settled effs) \<subseteq> set (handles s)"
proof -
  have "allocated s \<le> allocated s'
      \<and> mset (handles s') \<subseteq># mset (handles s) + mset [allocated s..<allocated s']
      \<and> set (settled effs) \<subseteq> set (handles s)"
    using assms(1)
  proof cases
    case (s_command e ctx body)
    with assms(2) show ?thesis
      using enqueue_handles [of e s "''atomist:command''" cfg ctx body s' effs]
      by (simp add: invokeCommand_def)
  next
    case (s_event e ctx body)
    with assms(2) show ?thesis
      using enqueue_handles [of e s "''atomist:event''" cfg ctx body s' effs]
      by (simp add: invokeEvent_def)
  next
    case (s_message e msg)
    with assms(2) show ?thesis using onMessage_handles [of e s cfg msg s' effs] by simp
  next
    case (s_online e)
    then obtain effs' where st: "startMessage cfg e s = Inr (s', effs')"
      and effs: "effs = Log Debug # effs'"
      by (auto simp: onOnline_def split: sum.splits)
    from startMessage_settles_nothing [OF st] have "settled effs = []"
      by (simp add: effs settled_simps settled_settlements)
    with s_online assms(2) st show ?thesis using startMessage_handles [of e s cfg s' effs'] by simp
  next
    case (s_registration r)
    then show ?thesis by (simp add: onRegistration_def handles_def settled_simps)
  next
    case s_disconnect
    then show ?thesis by (simp add: onDisconnect_def handles_def settled_simps)
  next
    case s_shutdown
    then show ?thesis by (simp add: shutdownHook_def handles_def settled_simps)
  next
    case s_report
    then show ?thesis
      using report_effects [of cfg s] by (simp add: report_state settled_settlements)
  qed
  then show "allocated s \<le> allocated s'"
    and "mset (handles s') \<subseteq># mset (handles s) + mset [allocated s..<allocated s']"
    and "set (settled effs) \<subseteq> set (handles s)" by simp_all
qed

lemma step_absent:
  assumes "step cfg s effs s'" "tables_ok s" "d < allocated s" "d \<notin> set (handles s)"
  shows "d < allocated s'" and "d \<notin> set (handles s')" and "d \<notin> set (settled effs)"
proof -
  from step_handles(1) [OF assms(1,2)] assms(3) show "d < allocated s'" by simp
  from step_handles(3) [OF assms(1,2)] assms(4) show "d \<notin> set (settled effs)" by blast
  show "d \<notin> set (handles s')"
  proof
    assume "d \<in> set (handles s')"
    then have "d \<in># mset (handles s')" by simp
    with step_handles(2) [OF assms(1,2)]
    have "d \<in># mset (handles s) + mset [allocated s..<allocated s']"
      by (rule mset_subset_eqD)
    with assms(3,4) show False by simp
  qed
qed

lemma never_settled:
  assumes "run cfg s effs s'" "tables_ok s" "d < allocated s" "d \<notin> set (handles s)"
  shows "d \<notin> set (settled effs)"
  using assms
proof (induction rule: run.induct)
  case (run_done s)
  show ?case by (simp add: settled_simps)
next
  case (run_step s effs s' effs' s'')
  from step_absent [OF run_step.hyps(1) run_step.prems]
  have a: "d < allocated s'" "d \<notin> set (handles s')" "d \<notin> set (settled effs)" .
  from step_inv(1) [OF run_step.hyps(1) run_step.prems(1)] have "tables_ok s'" .
  from run_step.IH [OF this a(1,2)] a(3) show ?case by (simp add: settled_simps)
qed

lemma count_le_distinct: "(\<And>a. count (mset xs) a \<le> 1) \<Longrightarrow> distinct xs"
proof (induction xs)
  case Nil
  then show ?case by simp
next
  case (Cons x xs)
  from Cons.prems [of x] have "count (mset xs) x = 0" by simp
  then have "x \<notin> set xs" by (simp add: count_eq_zero_iff)
  moreover have "\<And>a. count (mset xs) a \<le> 1"
  proof -
    fix a
    have "count (mset xs) a \<le> count (mset (x # xs)) a" by simp
    also note Cons.prems [of a]
    finally show "count (mset xs) a \<le> 1" .
  qed
  ultimately show ?case using Cons.IH by simp
qed

lemma step_handles_ok:
  assumes "step cfg s effs s'" "tables_ok s" "handles_ok s"
  shows "handles_ok s'"
proof -
  note le = step_handles(1) [OF assms(1,2)] and sub = step_handles(2) [OF assms(1,2)]
  from assms(3) have d: "distinct (handles s)" and b: "\<forall>x\<in>set (handles s). x < allocated s"
    by (simp_all add: handles_ok_def list_all_iff)
  have "\<And>a. count (mset (handles s')) a \<le> 1"
  proof -
    fix a
    have "count (mset (handles s')) a
        \<le> count (mset (handles s) + mset [allocated s..<allocated s']) a"
      using sub by (rule mset_subset_eq_count)
    also have "\<dots> = count (mset (handles s)) a + count (mset [allocated s..<allocated s']) a"
      by simp
    also have "\<dots> \<le> 1"
    proof (cases "a \<in> set (handles s)")
      case True
      with b have "a \<notin> set [allocated s..<allocated s']" by auto
      then have "count (mset [allocated s..<allocated s']) a = 0" by (simp add: count_eq_zero_iff)
      moreover from d True have "count (mset (handles s)) a = 1"
        by (simp add: distinct_count_atmost_1)
      ultimately show ?thesis by linarith
    next
      case False
      then have "count (mset (handles s)) a = 0" by (simp add: count_eq_zero_iff)
      moreover have "count (mset [allocated s..<allocated s']) a \<le> 1"
        using distinct_count_atmost_1 [of "[allocated s..<allocated s']"] by simp
      ultimately show ?thesis by linarith
    qed
    finally show "count (mset (handles s')) a \<le> 1" .
  qed
  then have "distinct (handles s')" by (rule count_le_distinct)
  moreover have "\<forall>x\<in>set (handles s'). x < allocated s'"
  proof
    fix x assume "x \<in> set (handles s')"
    then have "x \<in># mset (handles s')" by simp
    with sub have "x \<in># mset (handles s) + mset [allocated s..<allocated s']"
      by (rule mset_subset_eqD)
    with b le show "x < allocated s'" by auto
  qed
  ultimately show ?thesis by (simp add: handles_ok_def list_all_iff)
qed

lemma reachable_handles: "reachable cfg s \<Longrightarrow> handles_ok s"
proof (induction rule: reachable.induct)
  case r_initial
  show ?case
    by (simp add: initial_def handles_ok_def handles_def table_handles_def queue_handles_def)
next
  case (r_step s effs s')
  from step_handles_ok [OF r_step.hyps(2) reachable_tables [OF r_step.hyps(1)] r_step.IH]
  show ?case .
qed

lemma run_reachable: "run cfg s effs s' \<Longrightarrow> reachable cfg s \<Longrightarrow> reachable cfg s'"
  by (induction rule: run.induct) (auto intro: r_step)

lemma purge_drops:
  assumes "(k, en) \<in> set tbl" "eworker en \<notin> wid ` set (counted e)"
  shows "add_mset (result (edispatched en)) (mset (table_handles (purge e tbl)))
           \<subseteq># mset (table_handles tbl)"
  using assms(1)
proof (induction tbl)
  case Nil
  then show ?case by simp
next
  case (Cons p tbl)
  show ?case
  proof (cases "p = (k, en)")
    case True
    with assms(2) have "purge e (p # tbl) = purge e tbl" by (simp add: purge_def)
    moreover from True have "mset (table_handles (p # tbl))
        = add_mset (result (edispatched en)) (mset (table_handles tbl))"
      by (simp add: table_handles_def)
    ultimately show ?thesis using mset_purge_le [of e tbl] by simp
  next
    case False
    with Cons have ih: "add_mset (result (edispatched en)) (mset (table_handles (purge e tbl)))
           \<subseteq># mset (table_handles tbl)" by simp
    obtain k' en' where p: "p = (k', en')" by (cases p)
    show ?thesis
    proof (cases "eworker en' \<in> wid ` set (counted e)")
      case True
      then have "purge e (p # tbl) = p # purge e tbl" by (simp add: purge_def p)
      with ih show ?thesis by (simp add: table_handles_def p add_mset_commute)
    next
      case out: False
      then have "purge e (p # tbl) = purge e tbl" by (simp add: purge_def p)
      moreover have "mset (table_handles tbl) \<subseteq># mset (table_handles (p # tbl))"
        by (simp add: table_handles_def)
      ultimately show ?thesis using ih by (metis subset_mset.trans)
    qed
  qed
qed

lemma purged_drops:
  assumes "(k, en) \<in> set (commands s) \<union> set (events s)" "eworker en \<notin> wid ` set (counted e)"
  shows "add_mset (result (edispatched en))
           (mset (handles (s\<lparr>events := purge e (events s), commands := purge e (commands s)\<rparr>)))
         \<subseteq># mset (handles s)"
proof -
  let ?d = "result (edispatched en)"
  let ?c = "mset (table_handles (commands s))" and ?c' = "mset (table_handles (purge e (commands s)))"
  let ?v = "mset (table_handles (events s))" and ?v' = "mset (table_handles (purge e (events s)))"
  let ?q = "mset (queue_handles (messages s))"
  have "add_mset ?d (?c' + ?v') \<subseteq># ?c + ?v"
  proof (cases "(k, en) \<in> set (commands s)")
    case True
    from purge_drops [OF True assms(2)] mset_purge_le [of e "events s"]
    have "add_mset ?d ?c' + ?v' \<subseteq># ?c + ?v" by (rule subset_mset.add_mono)
    then show ?thesis by simp
  next
    case False
    with assms(1) have "(k, en) \<in> set (events s)" by simp
    from mset_purge_le [of e "commands s"] purge_drops [OF this assms(2)]
    have "?c' + add_mset ?d ?v' \<subseteq># ?c + ?v" by (rule subset_mset.add_mono)
    then show ?thesis by simp
  qed
  then have "add_mset ?d (?c' + ?v') + ?q \<subseteq># ?c + ?v + ?q" by (rule subset_mset.add_right_mono)
  then show ?thesis by (simp add: handles_mset)
qed

lemma startMessage_pass_handles:
  assumes "env_ok e" "tables_ok s" "messages s \<noteq> []" "startMessage cfg e s = Inr (s', effs)"
  shows "mset (handles s')
     \<subseteq># mset (handles (s\<lparr>events := purge e (events s), commands := purge e (commands s)\<rparr>))"
proof -
  let ?s1 = "s\<lparr>events := purge e (events s), commands := purge e (commands s)\<rparr>"
  show ?thesis
  proof (cases "eligible cfg e s = []")
    case True
    with startMessage_saturated [OF assms(1,2,3), of cfg] assms(4) have "s' = ?s1" by simp
    then show ?thesis by simp
  next
    case el: False
    from startMessage_dispatch [OF assms(1,2,3) el]
    obtain m q where p: "pop compare (tie e) (messages s) = Some (m, q)"
      and st: "startMessage cfg e s =
          Inr (track (chosen cfg e s) m
              (s\<lparr>events := purge e (events s), commands := purge e (commands s), messages := q\<rparr>),
            NamespaceSet (mcontext (message m))
            # (if mtype (message m) = ''atomist:command'' \<or> mtype (message m) = ''atomist:event''
               then [Log Debug] else [])
            @ WorkerSend (wid (chosen cfg e s)) (message m)
            # snd (reportQueueLength cfg (track (chosen cfg e s) m
                (s\<lparr>events := purge e (events s), commands := purge e (commands s), messages := q\<rparr>))))"
      by blast
    from st assms(4) have s': "s' = track (chosen cfg e s) m (?s1\<lparr>messages := q\<rparr>)" by simp
    have "mset (handles s')
          \<subseteq># add_mset (result (qdispatched m)) (mset (handles (?s1\<lparr>messages := q\<rparr>)))"
      unfolding s' by (rule track_handles)
    also have "add_mset (result (qdispatched m)) (mset (handles (?s1\<lparr>messages := q\<rparr>)))
          = mset (handles ?s1)"
      using pop_mset [OF p] by (simp add: handles_mset queue_handles_def)
    finally show ?thesis .
  qed
qed

lemma purged_lost:
  assumes "env_ok e" "tables_ok s" "handles_ok s" "messages s \<noteq> []"
    "(k, en) \<in> set (commands s) \<union> set (events s)" "eworker en \<notin> wid ` set (counted e)"
    "startMessage cfg e s = Inr (s', effs)"
  shows "result (edispatched en) \<notin> set (handles s')"
    and "result (edispatched en) < allocated s'"
proof -
  let ?d = "result (edispatched en)"
  from assms(5) have "?d \<in> set (handles s)" by (force simp: handles_def table_handles_def)
  with assms(3) have c: "count (mset (handles s)) ?d = 1" and lt: "?d < allocated s"
    by (simp_all add: handles_ok_def distinct_count_atmost_1 list_all_iff)
  from lt startMessage_handles(2) [OF assms(1,2,7)] show "?d < allocated s'" by simp
  show "?d \<notin> set (handles s')"
  proof
    assume "?d \<in> set (handles s')"
    then have "1 \<le> count (mset (handles s')) ?d" by (simp add: count_greater_eq_one_iff)
    also have "\<dots> \<le> count (mset (handles
        (s\<lparr>events := purge e (events s), commands := purge e (commands s)\<rparr>))) ?d"
      using startMessage_pass_handles [OF assms(1,2,4,7)] by (rule mset_subset_eq_count)
    finally have "2 \<le> count (add_mset ?d (mset (handles
        (s\<lparr>events := purge e (events s), commands := purge e (commands s)\<rparr>)))) ?d" by simp
    also have "\<dots> \<le> count (mset (handles s)) ?d"
      using purged_drops [OF assms(5,6)] by (rule mset_subset_eq_count)
    finally show False using c by simp
  qed
qed

lemma counted_all: "counted e = workers e"
  by (simp add: counted_def isConnected_property_def)

text \<open>
  An assignment pass removes from both tables exactly the entries whose worker is not in
  \<^verbatim>\<open>cluster.workers\<close>, so no entry of a worker \<open>i\<close> that is gone from there is left,
  and it changes nothing else. The dispatch step that runs the pass completes no deferred
  result (it neither resolves nor rejects any); and once it has run the pass (the queue was
  not empty), whatever the processor does from then on, the deferred result of an entry that
  named such a worker is never resolved and never rejected.
\<close>

lemma unlisted_worker_purged:
  assumes "reachable cfg s" "env_ok e" "i \<notin> wid ` set (workers e)"
  shows "(\<exists>w. assignWorker cfg e s =
            Inr (s\<lparr>events := filter (\<lambda>(k, en). eworker en \<in> wid ` set (workers e)) (events s),
                   commands := filter (\<lambda>(k, en). eworker en \<in> wid ` set (workers e)) (commands s)\<rparr>, w))
       \<and> load i (filter (\<lambda>(k, en). eworker en \<in> wid ` set (workers e)) (events s)) = 0
       \<and> load i (filter (\<lambda>(k, en). eworker en \<in> wid ` set (workers e)) (commands s)) = 0
       \<and> (\<exists>s' effs. startMessage cfg e s = Inr (s', effs) \<and> settlements effs = []
             \<and> (messages s \<noteq> [] \<longrightarrow> assigned i s' = 0
                  \<and> (\<forall>k en effs' s''.
                        (k, en) \<in> set (commands s) \<union> set (events s) \<and> eworker en = i
                        \<and> run cfg s' effs' s''
                        \<longrightarrow> result (edispatched en) \<notin> set (settled effs'))))"
proof -
  note ok = reachable_tables [OF assms(1)] and hok = reachable_handles [OF assms(1)]
  from assms(3) have gone: "i \<notin> wid ` set (counted e)" by (simp add: counted_all)
  from startMessage_total [OF assms(2) ok, of cfg]
  obtain s' effs where st: "startMessage cfg e s = Inr (s', effs)" by blast
  from startMessage_settles_nothing [OF st] have none: "settlements effs = []" .
  have dead: "messages s \<noteq> [] \<longrightarrow> assigned i s' = 0"
    using startMessage_dead [OF assms(2) ok _ gone st] by blast
  have ok': "tables_ok s'" by (rule startMessage_inv(1) [OF assms(2) ok st])
  have never: "messages s \<noteq> [] \<longrightarrow> (\<forall>k en effs' s''.
                        (k, en) \<in> set (commands s) \<union> set (events s) \<and> eworker en = i
                        \<and> run cfg s' effs' s''
                        \<longrightarrow> result (edispatched en) \<notin> set (settled effs'))"
  proof (intro impI allI, elim conjE)
    fix k en effs' s''
    assume ne: "messages s \<noteq> []" and en: "(k, en) \<in> set (commands s) \<union> set (events s)"
      and i: "eworker en = i" and r: "run cfg s' effs' s''"
    from i gone have out: "eworker en \<notin> wid ` set (counted e)" by simp
    from purged_lost [OF assms(2) ok hok ne en out st]
    have "result (edispatched en) \<notin> set (handles s')" "result (edispatched en) < allocated s'" .
    with never_settled [OF r ok'] show "result (edispatched en) \<notin> set (settled effs')" by blast
  qed
  from st none dead never
  have "\<exists>s' effs. startMessage cfg e s = Inr (s', effs) \<and> settlements effs = []
             \<and> (messages s \<noteq> [] \<longrightarrow> assigned i s' = 0
                  \<and> (\<forall>k en effs' s''.
                        (k, en) \<in> set (commands s) \<union> set (events s) \<and> eworker en = i
                        \<and> run cfg s' effs' s''
                        \<longrightarrow> result (edispatched en) \<notin> set (settled effs')))" by blast
  moreover from load_purge_dead [OF gone]
  have "load i (filter (\<lambda>(k, en). eworker en \<in> wid ` set (workers e)) (events s)) = 0"
    "load i (filter (\<lambda>(k, en). eworker en \<in> wid ` set (workers e)) (commands s)) = 0"
    by (simp_all add: purge_def counted_all)
  ultimately show ?thesis
    using assignWorker_ok [OF assms(2) ok, of cfg] by (simp add: purge_def counted_all)
qed

lemma ex_saturated:
  assumes "tables_ok s" "messages s \<noteq> []" "\<not> int (assigned i s) < m"
  shows "startMessage (ex_config m) (ex_env [ex_worker i]) s =
     Inr (s\<lparr>events := purge (ex_env [ex_worker i]) (events s),
            commands := purge (ex_env [ex_worker i]) (commands s)\<rparr>,
          snd (reportQueueLength (ex_config m)
            (s\<lparr>events := purge (ex_env [ex_worker i]) (events s),
               commands := purge (ex_env [ex_worker i]) (commands s)\<rparr>)))"
proof -
  from assms(3) have "eligible (ex_config m) (ex_env [ex_worker i]) s = []"
    by (simp add: ex_eligible)
  from startMessage_saturated [OF ex_env_ok(2) assms(1,2) this] show ?thesis .
qed

lemma ex_enqueue:
  "enqueue ty cfg (ex_env ws) (ex_handler_context k n) 0 (ex_state c ev q n) =
     (case startMessage cfg (ex_env ws) (ex_state c ev (q @ [ex_item ty k n 0]) (Suc n)) of
        Inl err \<Rightarrow> Inl err
      | Inr (s2, effs) \<Rightarrow> Inr (s2, Callback n # effs))"
proof -
  have "ex_state c ev q n\<lparr>messages := push (messages (ex_state c ev q n))
      \<lparr>message = \<lparr>mtype = ty, mregistration = registration (ex_state c ev q n),
           mcontext = hcontext (ex_handler_context k n), mdata = 0\<rparr>,
       qdispatched = \<lparr>result = allocated (ex_state c ev q n), dcontext = ex_handler_context k n\<rparr>,
       ts = now (ex_env ws)\<rparr>,
      allocated := allocated (ex_state c ev q n) + 1\<rparr>
    = ex_state c ev (q @ [ex_item ty k n 0]) (Suc n)"
    by (simp add: ex_state_def ex_item_def ex_handler_context_def push_def ex_env_def)
  then show ?thesis
    unfolding enqueue_def Let_def by (simp add: ex_fields split: sum.splits)
qed

text \<open>Command \<open>a\<close> is in flight on worker 1, the only worker, whose limit is 1; command \<open>b\<close>
  is queued behind it.\<close>

lemma ex_reachable_queued:
  "reachable (ex_config 1)
     (ex_state [ex_entry ''a'' 0 1] [] [ex_item ''atomist:command'' ''b'' 1 0] 2)"
proof -
  let ?s1 = "ex_state [ex_entry ''a'' 0 1] [] [] 1"
  let ?s2 = "ex_state [ex_entry ''a'' 0 1] [] [ex_item ''atomist:command'' ''b'' 1 0] 2"
  have "startMessage (ex_config 1) (ex_env [ex_worker 1]) ?s2
      = Inr (?s2, snd (reportQueueLength (ex_config 1) ?s2))"
    using ex_saturated [of ?s2 1 1]
    by (simp add: ex_tables_ok ex_fields ex_assigned ex_load ex_purge)
  then have "invokeCommand (ex_config 1) (ex_env [ex_worker 1]) (ex_handler_context ''b'' 1) 0 ?s1
      = Inr (?s2, Callback 1 # snd (reportQueueLength (ex_config 1) ?s2))"
    unfolding invokeCommand_def ex_enqueue by (simp add: numeral_2_eq_2)
  from r_step [OF ex_reachable s_command [OF ex_env_ok(2) this]] show ?thesis .
qed

text \<open>Worker 1 has exited and worker 2 has taken its place: the pass removes the entry of
  \<open>a\<close>, and the dispatch step sends \<open>b\<close> to worker 2.\<close>

lemma ex_replaced:
  "assignWorker (ex_config 1) (ex_env [ex_worker 2])
        (ex_state [ex_entry ''a'' 0 1] [] [ex_item ''atomist:command'' ''b'' 1 0] 2)
       = Inr (ex_state [] [] [ex_item ''atomist:command'' ''b'' 1 0] 2, Some (ex_worker 2))"
  "startMessage (ex_config 1) (ex_env [ex_worker 2])
        (ex_state [ex_entry ''a'' 0 1] [] [ex_item ''atomist:command'' ''b'' 1 0] 2)
       = Inr (ex_state [ex_entry ''b'' 1 2] [] [] 2,
              [NamespaceSet (ex_context ''b''), Log Debug,
               WorkerSend 2 (message (ex_item ''atomist:command'' ''b'' 1 0)),
               Gauge ''work_queue.pending'' 0, Gauge ''work_queue.events'' 0,
               Gauge ''work_queue.commands'' 1])"
proof -
  let ?s = "ex_state [ex_entry ''a'' 0 1] [] [ex_item ''atomist:command'' ''b'' 1 0] 2"
  show "assignWorker (ex_config 1) (ex_env [ex_worker 2]) ?s
       = Inr (ex_state [] [] [ex_item ''atomist:command'' ''b'' 1 0] 2, Some (ex_worker 2))"
    using assignWorker_ok [OF ex_env_ok(2) ex_tables_ok(2), where cfg = "ex_config 1"]
    by (simp add: ex_fields ex_purge ex_eligible ex_assigned ex_load ex_chosen)
  have p: "pop compare 0 (messages ?s) = Some (ex_item ''atomist:command'' ''b'' 1 0, [])"
    by (simp add: ex_fields ex_pop)
  have "int (assigned 2 ?s) < 1" by (simp add: ex_assigned ex_load)
  note st = ex_dispatch [OF ex_tables_ok(2) p this]
  show "startMessage (ex_config 1) (ex_env [ex_worker 2]) ?s
       = Inr (ex_state [ex_entry ''b'' 1 2] [] [] 2,
              [NamespaceSet (ex_context ''b''), Log Debug,
               WorkerSend 2 (message (ex_item ''atomist:command'' ''b'' 1 0)),
               Gauge ''work_queue.pending'' 0, Gauge ''work_queue.events'' 0,
               Gauge ''work_queue.commands'' 1])"
    unfolding st
    by (simp add: ex_fields ex_purge ex_track ex_update ex_report ex_item_fields)
qed

lemma ex_track_gone:
  "track (ex_gone w) (ex_item ''atomist:command'' k d t) (ex_state c ev q n)
     = ex_state (AList.update k (snd (ex_entry k d w)) c) ev q n"
  by (simp add: track_def ex_item_def ex_state_def ex_entry_def ex_gone_def Let_def
      ex_context_def)

text \<open>
  C4. The limit per worker holds in every reachable state and a worker at its limit is
  never returned (\<open>assigned_within_limit\<close>), but the assignment pass does not return none
  when no worker is live. The only worker of \<^verbatim>\<open>cluster.workers\<close> has disconnected and
  has not exited yet, so no worker is connected; nothing is in flight and the limit is 4.
  The pass tests \<^verbatim>\<open>worker.isConnected\<close>, the method, where \<^verbatim>\<open>worker.isConnected()\<close>,
  its result, is meant; it counts the worker and returns it, and a command invoked then is
  tracked on that worker and sent to it.
\<close>

theorem disconnected_worker_assigned:
  "reachable (ex_config 4) initial
   \<and> env_ok (ex_env [ex_gone 1])
   \<and> filter isConnected (workers (ex_env [ex_gone 1])) = []
   \<and> assignWorker (ex_config 4) (ex_env [ex_gone 1]) initial = Inr (initial, Some (ex_gone 1))
   \<and> \<not> isConnected (ex_gone 1)
   \<and> invokeCommand (ex_config 4) (ex_env [ex_gone 1]) (ex_handler_context ''a'' 0) 0 initial
       = Inr (ex_state [ex_entry ''a'' 0 1] [] [] 1,
           [Callback 0, NamespaceSet (ex_context ''a''), Log Debug,
            WorkerSend 1 (message (ex_item ''atomist:command'' ''a'' 0 0)),
            Gauge ''work_queue.pending'' 0, Gauge ''work_queue.events'' 0,
            Gauge ''work_queue.commands'' 1])"
proof -
  let ?s = "ex_state [] [] [ex_item ''atomist:command'' ''a'' 0 0] 1"
  have i: "initial = ex_state [] [] [] 0" by (simp add: initial_def ex_state_def)
  have a0: "assignWorker (ex_config 4) (ex_env [ex_gone 1]) (ex_state [] [] [] 0)
      = Inr (ex_state [] [] [] 0, Some (ex_gone 1))"
    using assignWorker_ok [OF ex_env_ok(3) ex_tables_ok(1), where cfg = "ex_config 4"]
    by (simp add: ex_fields ex_purge ex_eligible ex_assigned ex_load ex_chosen)
  have a: "assignWorker (ex_config 4) (ex_env [ex_gone 1]) ?s = Inr (?s, Some (ex_gone 1))"
    using assignWorker_ok [OF ex_env_ok(3) ex_tables_ok(1), where cfg = "ex_config 4"]
    by (simp add: ex_fields ex_purge ex_eligible ex_assigned ex_load ex_chosen)
  have st: "startMessage (ex_config 4) (ex_env [ex_gone 1]) ?s
     = Inr (ex_state [ex_entry ''a'' 0 1] [] [] 1,
           [NamespaceSet (ex_context ''a''), Log Debug,
            WorkerSend 1 (message (ex_item ''atomist:command'' ''a'' 0 0)),
            Gauge ''work_queue.pending'' 0, Gauge ''work_queue.events'' 0,
            Gauge ''work_queue.commands'' 1])"
    unfolding startMessage_def a
    by (simp add: ex_fields ex_pop ex_env_fields ex_track_gone ex_update ex_report ex_item_fields
        ex_gone_fields)
  have inv: "invokeCommand (ex_config 4) (ex_env [ex_gone 1]) (ex_handler_context ''a'' 0) 0
        (ex_state [] [] [] 0)
       = Inr (ex_state [ex_entry ''a'' 0 1] [] [] 1,
           [Callback 0, NamespaceSet (ex_context ''a''), Log Debug,
            WorkerSend 1 (message (ex_item ''atomist:command'' ''a'' 0 0)),
            Gauge ''work_queue.pending'' 0, Gauge ''work_queue.events'' 0,
            Gauge ''work_queue.commands'' 1])"
    unfolding invokeCommand_def ex_enqueue
    by (simp add: st [unfolded One_nat_def])
  from r_initial [of "ex_config 4"] ex_env_ok(3) [of 1] a0 inv show ?thesis
    unfolding i by (simp add: ex_env_fields ex_gone_fields)
qed

text \<open>
  C5. The pass removes the entries of a worker that is gone from \<^verbatim>\<open>cluster.workers\<close>
  (\<open>unlisted_worker_purged\<close>), but not those of a worker that is no longer live and still
  listed there. Command \<open>a\<close> is in flight on worker 1, the only worker, whose limit is 1,
  and command \<open>b\<close> is queued; worker 1 has disconnected and has not exited yet, so no
  worker is connected. The pass tests \<^verbatim>\<open>worker.isConnected\<close>, the method, where
  \<^verbatim>\<open>worker.isConnected()\<close>, its result, is meant: it counts worker 1, keeps the entry of
  \<open>a\<close> and, worker 1 being at its limit, returns no worker; the dispatch step leaves both
  tables and the queue as they were.
\<close>

theorem disconnected_worker_kept:
  "reachable (ex_config 1)
     (ex_state [ex_entry ''a'' 0 1] [] [ex_item ''atomist:command'' ''b'' 1 0] 2)
   \<and> env_ok (ex_env [ex_gone 1])
   \<and> filter isConnected (workers (ex_env [ex_gone 1])) = []
   \<and> eworker (snd (ex_entry ''a'' 0 1)) = wid (ex_gone 1)
   \<and> assignWorker (ex_config 1) (ex_env [ex_gone 1])
        (ex_state [ex_entry ''a'' 0 1] [] [ex_item ''atomist:command'' ''b'' 1 0] 2)
       = Inr (ex_state [ex_entry ''a'' 0 1] [] [ex_item ''atomist:command'' ''b'' 1 0] 2, None)
   \<and> map_sum id fst (startMessage (ex_config 1) (ex_env [ex_gone 1])
        (ex_state [ex_entry ''a'' 0 1] [] [ex_item ''atomist:command'' ''b'' 1 0] 2))
       = Inr (ex_state [ex_entry ''a'' 0 1] [] [ex_item ''atomist:command'' ''b'' 1 0] 2)"
proof -
  let ?s = "ex_state [ex_entry ''a'' 0 1] [] [ex_item ''atomist:command'' ''b'' 1 0] 2"
  have el: "eligible (ex_config 1) (ex_env [ex_gone 1]) ?s = []"
    by (simp add: ex_eligible ex_assigned ex_load)
  have ne: "messages ?s \<noteq> []" by (simp add: ex_fields)
  have a: "assignWorker (ex_config 1) (ex_env [ex_gone 1]) ?s = Inr (?s, None)"
    using assignWorker_ok [OF ex_env_ok(3) ex_tables_ok(2), where cfg = "ex_config 1"]
    by (simp add: ex_fields ex_purge ex_eligible ex_assigned ex_load)
  have "map_sum id fst (startMessage (ex_config 1) (ex_env [ex_gone 1]) ?s) = Inr ?s"
    unfolding startMessage_saturated [OF ex_env_ok(3) ex_tables_ok(2) ne el]
    by (simp add: ex_fields ex_purge)
  with a ex_reachable_queued ex_env_ok(3) [of 1] show ?thesis
    by (simp add: ex_env_fields ex_gone_fields ex_worker_entry)
qed

section \<open>Items with equal timestamps\<close>

lemma tq_three:
  assumes "cmp a a = 0" "cmp b a = 0" "cmp c a = 0" "cmp b c = 0"
  shows "tq_push cmp (tq_push cmp (tq_push cmp [] a) b) c = [a, b, c]"
    and "tq_pop cmp [a, b, c] = Some (a, [c, b])"
    and "tq_pop cmp [c, b] = Some (c, [b])"
    and "tq_pop cmp [b] = Some (b, [])"
  using assms by (simp_all add: tq_push_def tq_pop_def Let_def)

lemma ex_compare_events:
  "compare (ex_item ''atomist:event'' k d t) (ex_item ''atomist:event'' k' d' t') = t - t'"
  by (simp add: compare_def ex_item_fields)

lemma pop_three:
  assumes "cmp a a = 0" "cmp a b = 0" "cmp a c = 0" "cmp b a = 0" "cmp b b = 0" "cmp b c = 0"
    "cmp c a = 0" "cmp c b = 0" "cmp c c = 0"
  shows "drain cmp [0, 1, 0] [a, b, c] = [a, c, b]"
proof -
  have 1: "pop cmp 0 [a, b, c] = Some (a, [b, c])"
    using assms
    by (simp add: pop_def tops_def upt_rec [of 0] upt_rec [of "Suc 0"] upt_rec [of 2] upt_rec [of 3])
  have 2: "pop cmp 1 [b, c] = Some (c, [b])"
    using assms
    by (simp add: pop_def tops_def upt_rec [of 0] upt_rec [of "Suc 0"] upt_rec [of 2])
  have 3: "pop cmp 0 [b] = Some (b, [])"
    using assms by (simp add: pop_def tops_def)
  show ?thesis by (simp add: 1 2 3 del: One_nat_def)
qed

text \<open>
  C2 as stated fails for items stamped in the same millisecond. Three events are enqueued in
  the order \<open>a\<close>, \<open>b\<close>, \<open>c\<close>, each with the clock's reading 10, while no worker has capacity.
  The comparator finds them equal. The heap holds them as \<open>[a, b, c]\<close>; the first pop
  returns \<open>a\<close> and puts the last item, \<open>c\<close>, at the root, where it stays, so the second
  pop returns \<open>c\<close> and the third \<open>b\<close>. In terms of \<open>drain\<close>, the ties are broken as 0, 1, 0.
  The events are not dispatched in the order they arrived.
\<close>

theorem same_class_order_counterexample:
  "tq_push compare (tq_push compare (tq_push compare []
       (ex_item ''atomist:event'' ''a'' 0 10))
       (ex_item ''atomist:event'' ''b'' 1 10))
       (ex_item ''atomist:event'' ''c'' 2 10)
     = [ex_item ''atomist:event'' ''a'' 0 10, ex_item ''atomist:event'' ''b'' 1 10,
        ex_item ''atomist:event'' ''c'' 2 10]
   \<and> tq_pop compare [ex_item ''atomist:event'' ''a'' 0 10, ex_item ''atomist:event'' ''b'' 1 10,
        ex_item ''atomist:event'' ''c'' 2 10]
     = Some (ex_item ''atomist:event'' ''a'' 0 10,
          [ex_item ''atomist:event'' ''c'' 2 10, ex_item ''atomist:event'' ''b'' 1 10])
   \<and> tq_pop compare [ex_item ''atomist:event'' ''c'' 2 10, ex_item ''atomist:event'' ''b'' 1 10]
     = Some (ex_item ''atomist:event'' ''c'' 2 10, [ex_item ''atomist:event'' ''b'' 1 10])
   \<and> tq_pop compare [ex_item ''atomist:event'' ''b'' 1 10]
     = Some (ex_item ''atomist:event'' ''b'' 1 10, [])
   \<and> drain compare [0, 1, 0]
        (push (push (push [] (ex_item ''atomist:event'' ''a'' 0 10))
           (ex_item ''atomist:event'' ''b'' 1 10)) (ex_item ''atomist:event'' ''c'' 2 10))
     = [ex_item ''atomist:event'' ''a'' 0 10, ex_item ''atomist:event'' ''c'' 2 10,
        ex_item ''atomist:event'' ''b'' 1 10]
   \<and> filter (\<lambda>m. \<not> is_command m)
        [ex_item ''atomist:event'' ''a'' 0 10, ex_item ''atomist:event'' ''c'' 2 10,
         ex_item ''atomist:event'' ''b'' 1 10]
     \<noteq> filter (\<lambda>m. \<not> is_command m)
        (push (push (push [] (ex_item ''atomist:event'' ''a'' 0 10))
           (ex_item ''atomist:event'' ''b'' 1 10)) (ex_item ''atomist:event'' ''c'' 2 10))"
proof -
  let ?a = "ex_item ''atomist:event'' ''a'' 0 10" and ?b = "ex_item ''atomist:event'' ''b'' 1 10"
    and ?c = "ex_item ''atomist:event'' ''c'' 2 10"
  have c: "compare ?a ?a = 0" "compare ?a ?b = 0" "compare ?a ?c = 0"
    "compare ?b ?a = 0" "compare ?b ?b = 0" "compare ?b ?c = 0"
    "compare ?c ?a = 0" "compare ?c ?b = 0" "compare ?c ?c = 0"
    by (simp_all add: ex_compare_events)
  note h = tq_three [of compare ?a ?b ?c, OF c(1) c(4) c(7) c(6)]
  have d: "drain compare [0, 1, 0] [?a, ?b, ?c] = [?a, ?c, ?b]"
    by (rule pop_three [of compare ?a ?b ?c, OF c])
  have p: "push (push (push [] ?a) ?b) ?c = [?a, ?b, ?c]" by (simp add: push_def)
  have ne: "filter (\<lambda>m. \<not> is_command m) [?a, ?c, ?b] \<noteq> filter (\<lambda>m. \<not> is_command m) [?a, ?b, ?c]"
    by (simp add: ex_simps)
  show ?thesis
    unfolding p
    by (intro conjI) (rule h(1), rule h(2), rule h(3), rule h(4), rule d, rule ne)
qed

end
